theory Spec2Isabelle
  imports Complex_Main "HOL-Library.Log_Nat"
begin

section \<open>Outbreak analyser: the data model\<close>

text \<open>
  The script \<^verbatim>\<open>outbreak_analyser.py\<close> works on two NumPy arrays of \<^verbatim>\<open>float64\<close>:
  the case line list (one row per case: identifier, x, y) and the population grid.

  The distance matrix and the search for its maximum are modelled on the real numbers:
  what is proved of them is which formula is computed and which entry is chosen. The
  affected population and the percentage are modelled with the rounding of \<^verbatim>\<open>float64\<close>
  (\<open>round_f64\<close> below), since the truncated window bounds and the sums depend on it.

  A row of the case array has at least three columns; the functions read columns 1 and 2
  only. An array with fewer columns raises \<^verbatim>\<open>IndexError\<close> at the first column
  access; the record type leaves such arrays out.
\<close>

datatype py_error = ValueError | IndexError

record case_row =
  col0 :: real
  col1 :: real
  col2 :: real

type_synonym matrix = "real list list"

definition shape :: "matrix \<Rightarrow> nat \<times> nat" where
  \<comment> \<open>\<^verbatim>\<open>a.shape\<close> of a two-dimensional array, stored as the list of its rows. An array
      with no row is given no column either.\<close>
  "shape m = (length m, (case m of [] \<Rightarrow> 0 | r # _ \<Rightarrow> length r))"

definition is_matrix :: "matrix \<Rightarrow> bool" where
  \<comment> \<open>every NumPy array is rectangular; a list of rows has to be told so\<close>
  "is_matrix m = (\<forall>r \<in> set m. length r = snd (shape m))"

section \<open>Arithmetic of \<^verbatim>\<open>float64\<close>\<close>

text \<open>
  A \<^verbatim>\<open>float64\<close> operation returns the exact result rounded to 53 significant bits,
  to the nearest value and to the even significand on a tie. The exponent range is left
  unbounded here: overflow to an infinity, subnormal numbers, the sign of zero and NaN
  are outside the model (the one division of the script that can have a zero divisor is
  treated apart, see \<open>np_true_divide\<close>).
\<close>

definition round_half_even :: "real \<Rightarrow> int" where
  "round_half_even y =
     (let f = \<lfloor>y\<rfloor>; d = y - of_int f
      in if d < 1 / 2 then f
         else if 1 / 2 < d then f + 1
         else if even f then f else f + 1)"

definition float_exponent :: "real \<Rightarrow> int" where
  \<comment> \<open>the \<open>e\<close> with \<open>2\<^sup>e \<le> \<bar>x\<bar> < 2\<^sup>e\<^sup>+\<^sup>1\<close>, for \<open>x \<noteq> 0\<close>\<close>
  "float_exponent x =
     (if 1 \<le> \<bar>x\<bar> then bitlen \<lfloor>\<bar>x\<bar>\<rfloor> - 1
      else - bitlen (\<lceil>1 / \<bar>x\<bar>\<rceil> - 1))"

definition round_f64 :: "real \<Rightarrow> real" where
  "round_f64 x =
     (if x = 0 then 0
      else (let q = 2 powi (float_exponent x - 52)
            in of_int (round_half_even (x / q)) * q))"

definition is_f64 :: "real \<Rightarrow> bool" where
  \<comment> \<open>the values of \<^verbatim>\<open>float64\<close>: those that rounding leaves alone\<close>
  "is_f64 x = (round_f64 x = x)"

subsection \<open>\<^verbatim>\<open>np.sum\<close>\<close>

text \<open>
  \<^verbatim>\<open>np.sum(a)\<close> is \<^verbatim>\<open>np.add.reduce\<close> over all axes. Its inner loop adds to the running
  result the pairwise sum of one run of elements (\<^verbatim>\<open>pairwise_sum\<close> of NumPy's
  \<^verbatim>\<open>loops_utils.h\<close>): fewer than 8 elements are added one after the other, up to 128
  elements go through 8 accumulators, longer runs are split in two.
\<close>

fun seq_sum :: "real \<Rightarrow> real list \<Rightarrow> real" where
  \<comment> \<open>\<^verbatim>\<open>for (...) res += a[i]\<close>\<close>
  "seq_sum res [] = res"
| "seq_sum res (a # as) = seq_sum (round_f64 (res + a)) as"

fun unrolled :: "real list \<Rightarrow> real list \<Rightarrow> real list" where
  \<comment> \<open>the 8 accumulators \<open>r\<close>, each taking one element of every further block of 8\<close>
  "unrolled r as =
     (if 8 \<le> length as
      then unrolled (map2 (\<lambda>u v. round_f64 (u + v)) r (take 8 as)) (drop 8 as)
      else r)"

function pairwise_sum :: "real list \<Rightarrow> real" where
  "pairwise_sum a =
     (if length a < 8 then seq_sum 0 a
      else if length a \<le> 128 then
        (let r = unrolled (take 8 a) (drop 8 a);
             res = round_f64
                     (round_f64 (round_f64 (r ! 0 + r ! 1) + round_f64 (r ! 2 + r ! 3)) +
                      round_f64 (round_f64 (r ! 4 + r ! 5) + round_f64 (r ! 6 + r ! 7)))
         in seq_sum res (drop (length a - length a mod 8) a))
      else
        round_f64
          (pairwise_sum (take (length a div 2 - length a div 2 mod 8) a) +
           pairwise_sum (drop (length a div 2 - length a div 2 mod 8) a)))"
  by pat_completeness auto
termination
  by (relation "measure length") auto

definition add_reduce :: "real list list \<Rightarrow> real" where
  \<comment> \<open>the reduction over the runs of an array, from the initial value 0\<close>
  "add_reduce runs = fold (\<lambda>run io1. round_f64 (io1 + pairwise_sum run)) runs 0"

definition np_sum :: "matrix \<Rightarrow> real" where
  \<comment> \<open>\<^verbatim>\<open>np.sum(a)\<close> of a C-contiguous array, as \<^verbatim>\<open>np.loadtxt\<close> returns it: one run in
      row-major order\<close>
  "np_sum m = add_reduce [concat m]"

definition view_runs :: "nat \<Rightarrow> matrix \<Rightarrow> real list list" where
  \<comment> \<open>the runs of a slice \<open>v\<close> of an array with rows of length \<open>parent_width\<close>: the
      iterator joins the two axes when the slice has whole rows, one row or one column;
      else each row of the slice is a run\<close>
  "view_runs parent_width v =
     (if length v \<le> 1 \<or> (\<forall>row \<in> set v. length row = parent_width)
         \<or> (\<forall>row \<in> set v. length row \<le> 1)
      then [concat v] else v)"

definition np_sum_view :: "nat \<Rightarrow> matrix \<Rightarrow> real" where
  \<comment> \<open>\<^verbatim>\<open>np.sum\<close> of a slice of an array with rows of length \<open>parent_width\<close>\<close>
  "np_sum_view parent_width v = add_reduce (view_runs parent_width v)"

section \<open>The distance matrix\<close>

definition outer_sub :: "real list \<Rightarrow> real list \<Rightarrow> matrix" where
  \<comment> \<open>\<^verbatim>\<open>u.reshape(-1, 1) - v\<close>: broadcasting gives entry (i, j) = u[i] - v[j]\<close>
  "outer_sub us vs = map (\<lambda>u. map (\<lambda>v. u - v) vs) us"

definition calculate_distance_matrix :: "case_row list \<Rightarrow> matrix" where
  "calculate_distance_matrix locations =
     (let x_diff = outer_sub (map col1 locations) (map col1 locations);
          y_diff = outer_sub (map col2 locations) (map col2 locations)
      in map2 (map2 (\<lambda>dx dy. sqrt (dx\<^sup>2 + dy\<^sup>2))) x_diff y_diff)"

section \<open>The outbreak centre\<close>

fun argmax_from :: "real list \<Rightarrow> nat \<Rightarrow> nat \<Rightarrow> real \<Rightarrow> nat" where
  \<comment> \<open>the scan of \<^verbatim>\<open>np.argmax\<close>: the index moves only on a strictly larger value\<close>
  "argmax_from [] i best_i best = best_i"
| "argmax_from (v # vs) i best_i best =
     (if best < v then argmax_from vs (Suc i) i v
      else argmax_from vs (Suc i) best_i best)"

definition argmax :: "real list \<Rightarrow> py_error + nat" where
  \<comment> \<open>\<^verbatim>\<open>np.argmax\<close> of the flattened array; an empty array raises \<^verbatim>\<open>ValueError\<close>\<close>
  "argmax vs = (case vs of [] \<Rightarrow> Inl ValueError | v # rest \<Rightarrow> Inr (argmax_from rest 1 0 v))"

definition unravel_index :: "nat \<Rightarrow> nat \<times> nat \<Rightarrow> nat \<times> nat" where
  \<comment> \<open>\<^verbatim>\<open>np.unravel_index\<close> for a two-dimensional shape in row-major order\<close>
  "unravel_index k shp = (k div snd shp, k mod snd shp)"

definition find_outbreak_centre :: "case_row list \<Rightarrow> py_error + (real \<times> real)" where
  "find_outbreak_centre locations =
     (let distance_matrix = calculate_distance_matrix locations
      in case argmax (concat distance_matrix) of
           Inl e \<Rightarrow> Inl e
         | Inr k \<Rightarrow>
             (let max_distance_index = unravel_index k (shape distance_matrix)
              in if fst max_distance_index < length locations
                 then Inr (col1 (locations ! fst max_distance_index),
                           col2 (locations ! fst max_distance_index))
                 else Inl IndexError))"

definition amax :: "real list \<Rightarrow> py_error + real" where
  \<comment> \<open>\<^verbatim>\<open>np.max\<close> of the flattened array; an empty array raises \<^verbatim>\<open>ValueError\<close>\<close>
  "amax vs = (case vs of [] \<Rightarrow> Inl ValueError | v # rest \<Rightarrow> Inr (fold max rest v))"

section \<open>The affected population\<close>

definition py_int :: "real \<Rightarrow> int" where
  \<comment> \<open>Python's \<^verbatim>\<open>int(x)\<close> on a float: truncation toward zero\<close>
  "py_int x = (if 0 \<le> x then \<lfloor>x\<rfloor> else \<lceil>x\<rceil>)"

definition slice_bound :: "nat \<Rightarrow> int \<Rightarrow> nat" where
  \<comment> \<open>how a slice bound is read on an axis of length \<open>n\<close>: a negative bound counts from
      the end, and every bound is then cut to \<open>0 .. n\<close>\<close>
  "slice_bound n k = (if k < 0 then nat (max 0 (k + int n)) else min n (nat k))"

definition py_slice :: "'a list \<Rightarrow> int \<Rightarrow> int \<Rightarrow> 'a list" where
  \<comment> \<open>\<^verbatim>\<open>xs[start:stop]\<close>\<close>
  "py_slice xs start stop =
     (let lo = slice_bound (length xs) start;
          hi = slice_bound (length xs) stop
      in take (hi - lo) (drop lo xs))"

definition slice2 :: "matrix \<Rightarrow> int \<Rightarrow> int \<Rightarrow> int \<Rightarrow> int \<Rightarrow> matrix" where
  \<comment> \<open>\<^verbatim>\<open>m[start_i:end_i, start_j:end_j]\<close>\<close>
  "slice2 m start_i end_i start_j end_j =
     map (\<lambda>row. py_slice row start_j end_j) (py_slice m start_i end_i)"

definition find_affected_population :: "matrix \<Rightarrow> real \<times> real \<Rightarrow> real \<Rightarrow> real" where
  \<comment> \<open>\<open>east_west_range\<close> is a Python \<^verbatim>\<open>int\<close> obtained by truncating a \<^verbatim>\<open>float64\<close>, so its
      conversion back to \<^verbatim>\<open>float64\<close> in the four bounds is exact\<close>
  "find_affected_population population_matrix outbreak_centre max_distance =
     (let (east_west_cells, north_south_cells) = shape population_matrix;
          cell_size = 100;
          outbreak_centre_cells = (round_f64 (fst outbreak_centre / cell_size),
                                   round_f64 (snd outbreak_centre / cell_size));
          east_west_range = py_int (round_f64 (max_distance / cell_size));
          north_south_range = py_int (round_f64 (max_distance / cell_size));
          start_i = max 0 (py_int (round_f64
                      (fst outbreak_centre_cells - real_of_int east_west_range)));
          end_i = min (int east_west_cells)
                      (py_int (round_f64 (round_f64
                         (fst outbreak_centre_cells + real_of_int east_west_range) + 1)));
          start_j = max 0 (py_int (round_f64
                      (snd outbreak_centre_cells - real_of_int north_south_range)));
          end_j = min (int north_south_cells)
                      (py_int (round_f64 (round_f64
                         (snd outbreak_centre_cells + real_of_int north_south_range) + 1)))
      in np_sum_view north_south_cells
           (slice2 population_matrix start_i end_i start_j end_j))"

section \<open>The script\<close>

datatype npfloat = Finite real | PosInf | NegInf | NaN

definition np_true_divide :: "real \<Rightarrow> real \<Rightarrow> npfloat" where
  \<comment> \<open>\<^verbatim>\<open>a / b\<close> on \<^verbatim>\<open>np.float64\<close> scalars: a zero divisor gives a warning and NaN or an
      infinity, never an exception\<close>
  "np_true_divide a b =
     (if b \<noteq> 0 then Finite (round_f64 (a / b))
      else if a = 0 then NaN
      else if 0 < a then PosInf else NegInf)"

definition np_times :: "npfloat \<Rightarrow> real \<Rightarrow> npfloat" where
  \<comment> \<open>multiplication by a positive constant\<close>
  "np_times v c = (case v of Finite r \<Rightarrow> Finite (round_f64 (r * c)) | PosInf \<Rightarrow> PosInf
                   | NegInf \<Rightarrow> NegInf | NaN \<Rightarrow> NaN)"

record report =
  outbreak_centre :: "real \<times> real"
  total_population :: real
  affected_population :: real
  percentage_affected :: npfloat

definition outbreak_analyser :: "case_row list \<Rightarrow> matrix \<Rightarrow> py_error + report" where
  \<comment> \<open>the top-level statements of the script, from the loaded arrays to the printed values\<close>
  "outbreak_analyser case_locations population_matrix =
     (case find_outbreak_centre case_locations of
        Inl e \<Rightarrow> Inl e
      | Inr centre \<Rightarrow>
          (case amax (concat (calculate_distance_matrix case_locations)) of
             Inl e \<Rightarrow> Inl e
           | Inr max_distance \<Rightarrow>
               (let affected = find_affected_population population_matrix centre max_distance;
                    total = np_sum population_matrix
                in Inr \<lparr>outbreak_centre = centre,
                        total_population = total,
                        affected_population = affected,
                        percentage_affected = np_times (np_true_divide affected total) 100\<rparr>)))"

section \<open>Notions used to state the properties\<close>

definition xy :: "case_row \<Rightarrow> real \<times> real" where
  "xy c = (col1 c, col2 c)"

definition first_max_entry :: "matrix \<Rightarrow> nat \<Rightarrow> nat \<Rightarrow> nat \<Rightarrow> bool" where
  \<comment> \<open>entry \<open>(i, j)\<close> of an \<open>n \<times> n\<close> matrix is maximal, and every entry before it in
      row-major order is strictly smaller\<close>
  "first_max_entry d n i j =
     (i < n \<and> j < n \<and>
      (\<forall>i' \<in> {0..<n}. \<forall>j' \<in> {0..<n}. d ! i' ! j' \<le> d ! i ! j) \<and>
      (\<forall>i' \<in> {0..<n}. \<forall>j' \<in> {0..<n}.
         i' < i \<or> (i' = i \<and> j' < j) \<longrightarrow> d ! i' ! j' < d ! i ! j))"

definition nonneg_grid :: "matrix \<Rightarrow> bool" where
  "nonneg_grid m = (\<forall>row \<in> set m. \<forall>v \<in> set row. 0 \<le> v)"

definition f64_grid :: "matrix \<Rightarrow> bool" where
  \<comment> \<open>every entry is a \<^verbatim>\<open>float64\<close> value\<close>
  "f64_grid m = (\<forall>row \<in> set m. \<forall>v \<in> set row. is_f64 v)"

definition centre_cell :: "real \<Rightarrow> real" where
  \<comment> \<open>a centre coordinate in cell units, \<^verbatim>\<open>outbreak_centre / cell_size\<close>\<close>
  "centre_cell x = round_f64 (x / 100)"

definition cell_range :: "real \<Rightarrow> int" where
  \<comment> \<open>\<^verbatim>\<open>int(max_distance / cell_size)\<close>\<close>
  "cell_range max_distance = py_int (round_f64 (max_distance / 100))"

definition lower_index :: "real \<Rightarrow> int \<Rightarrow> int" where
  \<comment> \<open>\<^verbatim>\<open>int(c - r)\<close>, the start index before it is cut to the grid\<close>
  "lower_index c r = py_int (round_f64 (c - real_of_int r))"

definition upper_index :: "real \<Rightarrow> int \<Rightarrow> int" where
  \<comment> \<open>\<^verbatim>\<open>int(c + r + 1)\<close>, the end index (excluded) before it is cut to the grid\<close>
  "upper_index c r = py_int (round_f64 (round_f64 (c + real_of_int r) + 1))"

definition centre_in_grid :: "matrix \<Rightarrow> real \<times> real \<Rightarrow> bool" where
  \<comment> \<open>both coordinates, divided by the cell size, lie in \<open>[0, dimension)\<close>\<close>
  "centre_in_grid m centre =
     (0 \<le> centre_cell (fst centre) \<and> centre_cell (fst centre) < real (fst (shape m)) \<and>
      0 \<le> centre_cell (snd centre) \<and> centre_cell (snd centre) < real (snd (shape m)))"

definition index_window :: "nat \<Rightarrow> int \<Rightarrow> int \<Rightarrow> nat list" where
  \<comment> \<open>the grid indices of \<open>[0, dimension)\<close> from \<open>lo\<close> up to, and without, \<open>hi\<close>\<close>
  "index_window grid_dimension lo hi =
     filter (\<lambda>i. lo \<le> int i \<and> int i < hi) [0..<grid_dimension]"

definition sub_matrix :: "matrix \<Rightarrow> nat list \<Rightarrow> nat list \<Rightarrow> matrix" where
  \<comment> \<open>the cells whose row index is in \<open>is\<close> and column index in \<open>js\<close>\<close>
  "sub_matrix m is js = map (\<lambda>i. map (\<lambda>j. m ! i ! j) js) is"

definition affected_cells :: "matrix \<Rightarrow> real \<times> real \<Rightarrow> real \<Rightarrow> matrix" where
  \<comment> \<open>the slice of the grid that \<open>find_affected_population\<close> sums\<close>
  "affected_cells m centre max_distance =
     slice2 m
       (max 0 (lower_index (centre_cell (fst centre)) (cell_range max_distance)))
       (min (int (fst (shape m))) (upper_index (centre_cell (fst centre)) (cell_range max_distance)))
       (max 0 (lower_index (centre_cell (snd centre)) (cell_range max_distance)))
       (min (int (snd (shape m))) (upper_index (centre_cell (snd centre)) (cell_range max_distance)))"

definition spec_window :: "nat \<Rightarrow> real \<Rightarrow> int \<Rightarrow> nat list" where
  \<comment> \<open>the specification's window on one axis: the grid indices of \<open>[0, dimension)\<close> from
      \<open>centre_cell - r\<close> to \<open>centre_cell + r\<close>, both included; a bound becomes an index as
      the specification's data model says, by truncation toward zero\<close>
  "spec_window grid_dimension c r =
     filter (\<lambda>i. py_int (round_f64 (c - real_of_int r)) \<le> int i
                \<and> int i \<le> py_int (round_f64 (c + real_of_int r)))
            [0..<grid_dimension]"

definition spec_affected_population :: "matrix \<Rightarrow> real \<times> real \<Rightarrow> real \<Rightarrow> real" where
  \<comment> \<open>the algorithm as the specification words it\<close>
  "spec_affected_population m centre max_distance =
     (let r = py_int (round_f64 (max_distance / 100))
      in np_sum_view (snd (shape m))
           (sub_matrix m (spec_window (fst (shape m)) (round_f64 (fst centre / 100)) r)
                         (spec_window (snd (shape m)) (round_f64 (snd centre / 100)) r)))"

section \<open>Example inputs\<close>

abbreviation three_cases :: "case_row list" where
  "three_cases \<equiv> [\<lparr>col0 = 1, col1 = 0, col2 = 0\<rparr>, \<lparr>col0 = 2, col1 = 300, col2 = 0\<rparr>,
                   \<lparr>col0 = 3, col1 = 0, col2 = 400\<rparr>]"

abbreviation column_grid :: matrix where
  "column_grid \<equiv> [[1], [2], [4], [8], [16]]"

abbreviation two_cells :: matrix where
  "two_cells \<equiv> [[1], [2]]"

abbreviation ones_10x1 :: matrix where
  "ones_10x1 \<equiv> [[1], [1], [1], [1], [1], [1], [1], [1], [1], [1]]"

abbreviation ones_3x3 :: matrix where
  "ones_3x3 \<equiv> [[1, 1, 1], [1, 1, 1], [1, 1, 1]]"

abbreviation small_grid :: matrix where
  "small_grid \<equiv> [[1, 2], [3, 4]]"

abbreviation empty_land :: matrix where
  "empty_land \<equiv> [[0, 0], [0, 0]]"

abbreviation big_grid :: matrix where
  "big_grid \<equiv> [[1, 1, 2 ^ 53], [1, 2, 0], [0, 0, 0]]"

section \<open>Entries of the distance matrix\<close>

lemma outer_sub_length: "length (outer_sub us vs) = length us"
  by (simp add: outer_sub_def)

lemma outer_sub_nth: "i < length us \<Longrightarrow> outer_sub us vs ! i = map (\<lambda>v. us ! i - v) vs"
  by (simp add: outer_sub_def)

lemma distance_matrix_length:
  "length (calculate_distance_matrix locations) = length locations"
  by (simp add: calculate_distance_matrix_def outer_sub_length)

lemma distance_matrix_row:
  assumes "i < length locations"
  shows "calculate_distance_matrix locations ! i =
           map (\<lambda>b. sqrt ((col1 (locations ! i) - col1 b)\<^sup>2 + (col2 (locations ! i) - col2 b)\<^sup>2))
               locations"
  using assms
  by (simp add: calculate_distance_matrix_def outer_sub_length outer_sub_nth zip_map_map
      list_eq_iff_nth_eq)

lemma distance_matrix_entry:
  assumes "i < length locations" and "j < length locations"
  shows "calculate_distance_matrix locations ! i ! j =
           sqrt ((col1 (locations ! i) - col1 (locations ! j))\<^sup>2 +
                 (col2 (locations ! i) - col2 (locations ! j))\<^sup>2)"
  using assms by (simp add: distance_matrix_row)

lemma distance_matrix_rows:
  "\<forall>r \<in> set (calculate_distance_matrix locations). length r = length locations"
  by (auto simp: in_set_conv_nth distance_matrix_length distance_matrix_row)

lemma distance_matrix_single: "calculate_distance_matrix [c] = [[0]]"
  by (simp add: calculate_distance_matrix_def outer_sub_def)

lemma length_concat_uniform:
  "\<forall>r \<in> set m. length r = n \<Longrightarrow> length (concat m) = length m * n"
  by (induction m) simp_all

lemma concat_nth_uniform:
  assumes "\<forall>r \<in> set m. length r = n" and "i < length m" and "j < n"
  shows "concat m ! (i * n + j) = m ! i ! j"
  using assms
proof (induction m arbitrary: i)
  case Nil
  then show ?case by simp
next
  case (Cons r m)
  show ?case
  proof (cases i)
    case 0
    then show ?thesis using Cons.prems by (simp add: nth_append)
  next
    case (Suc i')
    then have "concat m ! (i' * n + j) = m ! i' ! j"
      using Cons.prems by (intro Cons.IH) simp_all
    then show ?thesis using Cons.prems Suc by (simp add: nth_append)
  qed
qed

lemma distance_matrix_concat_nonempty:
  assumes "locations \<noteq> []"
  shows "concat (calculate_distance_matrix locations) \<noteq> []"
proof -
  have "length (concat (calculate_distance_matrix locations)) = length locations * length locations"
    using length_concat_uniform [OF distance_matrix_rows] by (simp add: distance_matrix_length)
  then have "length (concat (calculate_distance_matrix locations)) \<noteq> 0" using assms by simp
  then show ?thesis by (metis list.size(3))
qed

section \<open>The scan for the first maximum\<close>

text \<open>
  The scan keeps the index of the first largest value seen so far; \<open>pre\<close> is the part of
  the array already read.
\<close>

lemma argmax_from_first:
  assumes "bi < length pre" and "pre ! bi = b"
    and "\<forall>j < length pre. pre ! j \<le> b" and "\<forall>j < bi. pre ! j < b"
  shows "argmax_from vs (length pre) bi b < length (pre @ vs)
       \<and> (\<forall>j < length (pre @ vs). (pre @ vs) ! j \<le> (pre @ vs) ! argmax_from vs (length pre) bi b)
       \<and> (\<forall>j < argmax_from vs (length pre) bi b.
            (pre @ vs) ! j < (pre @ vs) ! argmax_from vs (length pre) bi b)"
  using assms
proof (induction vs arbitrary: pre bi b)
  case Nil
  then show ?case by simp
next
  case (Cons v vs)
  have app: "pre @ v # vs = (pre @ [v]) @ vs" by simp
  have len: "Suc (length pre) = length (pre @ [v])" by simp
  have le: "pre ! j \<le> b" if "j < length pre" for j
    using Cons.prems(3) that by simp
  show ?case
  proof (cases "b < v")
    case True
    have step: "argmax_from (v # vs) (length pre) bi b
                  = argmax_from vs (length (pre @ [v])) (length pre) v"
      using True by simp
    have a: "length pre < length (pre @ [v])" by simp
    have b: "(pre @ [v]) ! length pre = v" by simp
    have c: "\<forall>j < length (pre @ [v]). (pre @ [v]) ! j \<le> v"
      using le True by (fastforce simp: nth_append less_Suc_eq)
    have d: "\<forall>j < length pre. (pre @ [v]) ! j < v"
      using le True by (fastforce simp: nth_append)
    show ?thesis
      unfolding step app by (rule Cons.IH [OF a b c d])
  next
    case False
    have step: "argmax_from (v # vs) (length pre) bi b
                  = argmax_from vs (length (pre @ [v])) bi b"
      using False by simp
    have a: "bi < length (pre @ [v])" using Cons.prems(1) by simp
    have b: "(pre @ [v]) ! bi = b" using Cons.prems(1,2) by (simp add: nth_append)
    have c: "\<forall>j < length (pre @ [v]). (pre @ [v]) ! j \<le> b"
      using le False by (auto simp: nth_append less_Suc_eq)
    have d: "\<forall>j < bi. (pre @ [v]) ! j < b"
      using Cons.prems(1,4) by (auto simp: nth_append)
    show ?thesis
      unfolding step app by (rule Cons.IH [OF a b c d])
  qed
qed

lemma argmax_first:
  assumes "xs \<noteq> []"
  shows "\<exists>k. argmax xs = Inr k \<and> k < length xs \<and> (\<forall>j < length xs. xs ! j \<le> xs ! k)
             \<and> (\<forall>j < k. xs ! j < xs ! k)"
proof -
  from assms obtain v rest where xs: "xs = v # rest" by (cases xs) auto
  have "argmax_from rest (length [v]) 0 v < length ([v] @ rest)
       \<and> (\<forall>j < length ([v] @ rest). ([v] @ rest) ! j \<le> ([v] @ rest) ! argmax_from rest (length [v]) 0 v)
       \<and> (\<forall>j < argmax_from rest (length [v]) 0 v.
            ([v] @ rest) ! j < ([v] @ rest) ! argmax_from rest (length [v]) 0 v)"
    by (rule argmax_from_first) simp_all
  then show ?thesis by (simp add: xs argmax_def)
qed

lemma amax_nonempty: "xs \<noteq> [] \<Longrightarrow> \<exists>v. amax xs = Inr v"
  by (cases xs) (simp_all add: amax_def)

lemma outbreak_centre_first_max:
  assumes "locations \<noteq> []"
  shows "\<exists>i j. first_max_entry (calculate_distance_matrix locations) (length locations) i j
             \<and> find_outbreak_centre locations = Inr (xy (locations ! i))"
proof -
  let ?d = "calculate_distance_matrix locations" and ?n = "length locations"
  have n: "0 < ?n" using assms by simp
  have rows: "\<forall>r \<in> set ?d. length r = ?n" by (rule distance_matrix_rows)
  have len: "length (concat ?d) = ?n * ?n"
    using length_concat_uniform [OF rows] by (simp add: distance_matrix_length)
  have entry: "concat ?d ! (i * ?n + j) = ?d ! i ! j" if "i < ?n" "j < ?n" for i j
    using that by (intro concat_nth_uniform [OF rows]) (simp_all add: distance_matrix_length)
  have "length (concat ?d) \<noteq> 0" using n unfolding len by simp
  then have "concat ?d \<noteq> []" by (metis list.size(3))
  from argmax_first [OF this] obtain k where k: "argmax (concat ?d) = Inr k" "k < ?n * ?n"
    and kmax: "\<forall>l < ?n * ?n. concat ?d ! l \<le> concat ?d ! k"
    and kfirst: "\<forall>l < k. concat ?d ! l < concat ?d ! k"
    unfolding len by blast
  define i j where "i = k div ?n" and "j = k mod ?n"
  have i: "i < ?n" using k(2) n by (simp add: i_def less_mult_imp_div_less)
  have j: "j < ?n" using n by (simp add: j_def)
  have kij: "k = i * ?n + j" by (simp add: i_def j_def)
  have pos: "i' * ?n + j' < ?n * ?n" if "i' < ?n" "j' < ?n" for i' j'
  proof -
    have "i' * ?n + j' < i' * ?n + ?n" using that by simp
    also have "\<dots> = Suc i' * ?n" by simp
    also have "\<dots> \<le> ?n * ?n" using that(1) by (metis Suc_leI mult_le_mono1)
    finally show ?thesis .
  qed
  have before: "i' * ?n + j' < k" if "i' < i \<or> (i' = i \<and> j' < j)" "j' < ?n" for i' j'
    using that
  proof (elim disjE conjE)
    assume "i' < i"
    have "i' * ?n + j' < Suc i' * ?n" using that(2) by simp
    also have "\<dots> \<le> i * ?n" using \<open>i' < i\<close> by (metis Suc_leI mult_le_mono1)
    finally show ?thesis by (simp add: kij)
  next
    assume "i' = i" "j' < j"
    then show ?thesis by (simp add: kij)
  qed
  have shp: "shape ?d = (?n, ?n)"
  proof -
    from n obtain r rs where d: "?d = r # rs"
      by (cases ?d) (use distance_matrix_length [of locations] in auto)
    then have "length r = ?n" using rows by simp
    then show ?thesis using d distance_matrix_length [of locations] by (simp add: shape_def)
  qed
  have "first_max_entry ?d ?n i j"
    unfolding first_max_entry_def
  proof (intro conjI ballI impI)
    show "i < ?n" "j < ?n" by (rule i, rule j)
  next
    fix i' j' assume "i' \<in> {0..<?n}" "j' \<in> {0..<?n}"
    then have *: "i' < ?n" "j' < ?n" by simp_all
    from kmax pos [OF *] have "concat ?d ! (i' * ?n + j') \<le> concat ?d ! k" by blast
    then show "?d ! i' ! j' \<le> ?d ! i ! j"
      by (simp only: kij entry [OF *] entry [OF i j])
  next
    fix i' j' assume "i' \<in> {0..<?n}" "j' \<in> {0..<?n}" and lt: "i' < i \<or> (i' = i \<and> j' < j)"
    then have *: "i' < ?n" "j' < ?n" by simp_all
    from kfirst before [OF lt *(2)] have "concat ?d ! (i' * ?n + j') < concat ?d ! k" by blast
    then show "?d ! i' ! j' < ?d ! i ! j"
      by (simp only: kij entry [OF *] entry [OF i j])
  qed
  moreover have "find_outbreak_centre locations = Inr (xy (locations ! i))"
    using i by (simp add: find_outbreak_centre_def k(1) unravel_index_def shp i_def xy_def)
  ultimately show ?thesis by blast
qed

text \<open>
  The three cases at (0,0), (300,0) and (0,400): the largest distance, 500, is first met
  at entry (1, 2), so the centre is the case of row 1.
\<close>

lemma three_cases_centre:
  "find_outbreak_centre three_cases = Inr (300, 0)"
  by (simp add: find_outbreak_centre_def calculate_distance_matrix_def outer_sub_def argmax_def
      unravel_index_def shape_def)

section \<open>Rounding\<close>

declare unrolled.simps [simp del]

declare pairwise_sum.simps [simp del]

subsection \<open>Rounding to the nearest integer\<close>

lemma round_half_even_of_int: "round_half_even (of_int n) = n"
  by (simp add: round_half_even_def)

lemma round_half_even_ge_floor: "\<lfloor>y\<rfloor> \<le> round_half_even y"
  by (simp add: round_half_even_def Let_def)

lemma round_half_even_le_ceiling: "round_half_even y \<le> \<lceil>y\<rceil>"
proof (cases "y = of_int \<lfloor>y\<rfloor>")
  case True
  then have "round_half_even y = \<lfloor>y\<rfloor>"
    by (metis floor_of_int round_half_even_of_int)
  then show ?thesis by (simp add: floor_le_ceiling)
next
  case False
  then have "\<lceil>y\<rceil> = \<lfloor>y\<rfloor> + 1" by (simp add: ceiling_altdef)
  then show ?thesis by (simp add: round_half_even_def Let_def)
qed

lemma round_half_even_lower: "of_int n \<le> y \<Longrightarrow> n \<le> round_half_even y"
  by (meson le_floor_iff order_trans round_half_even_ge_floor)

lemma round_half_even_upper: "y \<le> of_int n \<Longrightarrow> round_half_even y \<le> n"
  by (meson ceiling_le_iff order_trans round_half_even_le_ceiling)

lemma round_half_even_mono:
  assumes "a \<le> b"
  shows "round_half_even a \<le> round_half_even b"
proof (cases "\<lfloor>a\<rfloor> = \<lfloor>b\<rfloor>")
  case True
  with assms show ?thesis by (auto simp: round_half_even_def Let_def)
next
  case False
  with assms have "\<lfloor>a\<rfloor> < \<lfloor>b\<rfloor>" by (simp add: floor_mono order.not_eq_order_implies_strict)
  moreover have "round_half_even a \<le> \<lfloor>a\<rfloor> + 1" by (simp add: round_half_even_def Let_def)
  ultimately show ?thesis using round_half_even_ge_floor [of b] by linarith
qed

lemma round_half_even_minus: "round_half_even (- y) = - round_half_even y"
proof (cases "y = of_int \<lfloor>y\<rfloor>")
  case True
  then obtain n where y: "y = of_int n" ..
  have "round_half_even (of_int (- n)) = - n" by (rule round_half_even_of_int)
  then show ?thesis by (simp add: y round_half_even_of_int)
next
  case False
  then have c: "\<lceil>y\<rceil> = \<lfloor>y\<rfloor> + 1" by (simp add: ceiling_altdef)
  have f: "\<lfloor>- y\<rfloor> = - \<lfloor>y\<rfloor> - 1" by (simp add: floor_minus c)
  have "y - of_int \<lfloor>y\<rfloor> \<noteq> 0" using False by simp
  then show ?thesis
    unfolding round_half_even_def Let_def f by (auto simp: field_simps)
qed

subsection \<open>The exponent\<close>

lemma bitlen_pos: "0 < n \<Longrightarrow> 1 \<le> bitlen n"
  using bitlen_eq_zero_iff [of n] bitlen_nonneg [of n] by linarith

lemma float_exponent_bounds:
  assumes "x \<noteq> 0"
  shows "2 powi float_exponent x \<le> \<bar>x\<bar>" and "\<bar>x\<bar> < 2 powi (float_exponent x + 1)"
proof -
  show "2 powi float_exponent x \<le> \<bar>x\<bar>"
  proof (cases "1 \<le> \<bar>x\<bar>")
    case True
    define n where "n = \<lfloor>\<bar>x\<bar>\<rfloor>"
    have n: "0 < n" using True by (simp add: n_def)
    have e: "float_exponent x = bitlen n - 1" using True by (simp add: float_exponent_def n_def)
    have "0 \<le> bitlen n - 1" using bitlen_pos [OF n] by simp
    then have "(2::real) powi (bitlen n - 1) = of_int (2 ^ nat (bitlen n - 1))"
      by (simp add: power_int_def)
    also have "\<dots> \<le> of_int n" using bitlen_bounds [OF n] by (simp only: of_int_le_iff)
    also have "\<dots> \<le> \<bar>x\<bar>" by (simp add: n_def)
    finally show ?thesis by (simp only: e)
  next
    case False
    define k where "k = \<lceil>1 / \<bar>x\<bar>\<rceil> - 1"
    have y: "1 < 1 / \<bar>x\<bar>" using False assms by simp
    then have "1 < \<lceil>1 / \<bar>x\<bar>\<rceil>" by (simp add: less_ceiling_iff)
    then have k: "0 < k" by (simp add: k_def)
    have e: "float_exponent x = - bitlen k" using False by (simp add: float_exponent_def k_def)
    have "k < 2 ^ nat (bitlen k)" using bitlen_bounds [OF k] by simp
    then have "k + 1 \<le> 2 ^ nat (bitlen k)" by simp
    then have "real_of_int (k + 1) \<le> of_int (2 ^ nat (bitlen k))" by (simp only: of_int_le_iff)
    moreover have "1 / \<bar>x\<bar> \<le> real_of_int (k + 1)" by (simp add: k_def)
    ultimately have "1 / \<bar>x\<bar> \<le> 2 ^ nat (bitlen k)" by simp
    then have "1 / 2 ^ nat (bitlen k) \<le> \<bar>x\<bar>"
      using assms by (simp add: field_simps)
    moreover have "(2::real) powi (- bitlen k) = 1 / 2 ^ nat (bitlen k)"
      using bitlen_nonneg [of k] by (subst power_int_minus_divide) (simp add: power_int_def)
    ultimately show ?thesis by (simp only: e)
  qed
  show "\<bar>x\<bar> < 2 powi (float_exponent x + 1)"
  proof (cases "1 \<le> \<bar>x\<bar>")
    case True
    define n where "n = \<lfloor>\<bar>x\<bar>\<rfloor>"
    have n: "0 < n" using True by (simp add: n_def)
    have e: "float_exponent x + 1 = bitlen n" using True by (simp add: float_exponent_def n_def)
    have "n < 2 ^ nat (bitlen n)" using bitlen_bounds [OF n] by simp
    then have "n + 1 \<le> 2 ^ nat (bitlen n)" by simp
    then have "real_of_int (n + 1) \<le> of_int (2 ^ nat (bitlen n))" by (simp only: of_int_le_iff)
    moreover have "\<bar>x\<bar> < real_of_int (n + 1)" by (simp add: n_def)
    ultimately have "\<bar>x\<bar> < 2 ^ nat (bitlen n)" by simp
    moreover have "(2::real) powi bitlen n = 2 ^ nat (bitlen n)"
      using bitlen_nonneg [of n] by (simp add: power_int_def)
    ultimately show ?thesis by (simp only: e)
  next
    case False
    define k where "k = \<lceil>1 / \<bar>x\<bar>\<rceil> - 1"
    have y: "1 < 1 / \<bar>x\<bar>" using False assms by simp
    then have "1 < \<lceil>1 / \<bar>x\<bar>\<rceil>" by (simp add: less_ceiling_iff)
    then have k: "0 < k" by (simp add: k_def)
    have e: "float_exponent x + 1 = - (bitlen k - 1)"
      using False by (simp add: float_exponent_def k_def)
    have b: "0 \<le> bitlen k - 1" using bitlen_pos [OF k] by simp
    have "2 ^ nat (bitlen k - 1) \<le> k" using bitlen_bounds [OF k] by simp
    then have "real_of_int (2 ^ nat (bitlen k - 1)) \<le> of_int k" by (simp only: of_int_le_iff)
    moreover have "real_of_int k < 1 / \<bar>x\<bar>"
      unfolding k_def using ceiling_correct [of "1 / \<bar>x\<bar>"] by simp
    ultimately have "real_of_int (2 ^ nat (bitlen k - 1)) < 1 / \<bar>x\<bar>"
      by (rule order_le_less_trans)
    then have "2 ^ nat (bitlen k - 1) < 1 / \<bar>x\<bar>" by simp
    then have "\<bar>x\<bar> < 1 / 2 ^ nat (bitlen k - 1)"
      using assms by (simp add: field_simps)
    moreover have "(2::real) powi (- (bitlen k - 1)) = 1 / 2 ^ nat (bitlen k - 1)"
      using b by (subst power_int_minus_divide) (simp add: power_int_def)
    ultimately show ?thesis by (simp only: e)
  qed
qed

lemma float_exponent_unique:
  assumes "2 powi e \<le> \<bar>x\<bar>" and "\<bar>x\<bar> < 2 powi (e + 1)"
  shows "float_exponent x = e"
proof -
  have "(0::real) < 2 powi e" by simp
  with assms(1) have "0 < \<bar>x\<bar>" by linarith
  then have x: "x \<noteq> 0" by auto
  note b = float_exponent_bounds [OF x]
  have "float_exponent x < e + 1"
  proof (rule ccontr)
    assume "\<not> float_exponent x < e + 1"
    then have "(2::real) powi (e + 1) \<le> 2 powi float_exponent x"
      by (intro power_int_increasing) simp_all
    with b(1) assms(2) show False by linarith
  qed
  moreover have "e < float_exponent x + 1"
  proof (rule ccontr)
    assume "\<not> e < float_exponent x + 1"
    then have "(2::real) powi (float_exponent x + 1) \<le> 2 powi e"
      by (intro power_int_increasing) simp_all
    with b(2) assms(1) show False by linarith
  qed
  ultimately show ?thesis by simp
qed

lemma float_exponent_minus: "float_exponent (- x) = float_exponent x"
  by (simp add: float_exponent_def)

subsection \<open>Rounding to 53 bits\<close>

text \<open>
  A value \<open>M * 2\<^sup>k\<close> with \<open>\<bar>M\<bar> \<le> 2\<^sup>5\<^sup>3\<close> is left alone by rounding, rounding is idempotent
  and monotone.
\<close>

lemma round_f64_zero: "round_f64 0 = 0"
  by (simp add: round_f64_def)

lemma round_f64_scaled:
  "x \<noteq> 0 \<Longrightarrow> round_f64 x =
     of_int (round_half_even (x / 2 powi (float_exponent x - 52))) * 2 powi (float_exponent x - 52)"
  by (simp add: round_f64_def Let_def)

lemma binade_quantum:
  "(2::real) powi e = 2 ^ 52 * 2 powi (e - 52)" "(2::real) powi (e + 1) = 2 ^ 53 * 2 powi (e - 52)"
proof -
  have "(2::real) powi (52 + (e - 52)) = 2 powi 52 * 2 powi (e - 52)"
    by (rule power_int_add) simp
  then show "(2::real) powi e = 2 ^ 52 * 2 powi (e - 52)" by simp
  have "(2::real) powi (53 + (e - 52)) = 2 powi 53 * 2 powi (e - 52)"
    by (rule power_int_add) simp
  then show "(2::real) powi (e + 1) = 2 ^ 53 * 2 powi (e - 52)" by (simp add: algebra_simps)
qed

lemma scaled_bounds:
  assumes "x \<noteq> 0"
  shows "2 ^ 52 \<le> \<bar>x\<bar> / 2 powi (float_exponent x - 52)"
    and "\<bar>x\<bar> / 2 powi (float_exponent x - 52) < 2 ^ 53"
proof -
  let ?q = "(2::real) powi (float_exponent x - 52)"
  have q: "0 < ?q" by simp
  from float_exponent_bounds [OF assms]
  have "2 ^ 52 * ?q \<le> \<bar>x\<bar>" "\<bar>x\<bar> < 2 ^ 53 * ?q"
    by (simp_all only: binade_quantum [symmetric])
  then show "2 ^ 52 \<le> \<bar>x\<bar> / ?q" "\<bar>x\<bar> / ?q < 2 ^ 53"
    using q by (simp_all add: pos_le_divide_eq pos_divide_less_eq)
qed

lemma round_f64_minus: "round_f64 (- x) = - round_f64 x"
proof (cases "x = 0")
  case True
  then show ?thesis by (simp add: round_f64_zero)
next
  case False
  then have "- x \<noteq> 0" by simp
  then show ?thesis
    using False
    by (simp add: round_f64_scaled float_exponent_minus round_half_even_minus)
qed

lemma round_f64_nonneg:
  assumes "0 \<le> x"
  shows "0 \<le> round_f64 x"
proof (cases "x = 0")
  case True
  then show ?thesis by (simp add: round_f64_zero)
next
  case False
  let ?q = "(2::real) powi (float_exponent x - 52)"
  have "real_of_int 0 \<le> x / ?q" using assms by simp
  then have "0 \<le> round_half_even (x / ?q)" by (rule round_half_even_lower)
  then show ?thesis using False by (simp add: round_f64_scaled)
qed

lemma round_f64_binade:
  assumes "0 < x"
  shows "2 powi float_exponent x \<le> round_f64 x"
    and "round_f64 x \<le> 2 powi (float_exponent x + 1)"
proof -
  let ?q = "(2::real) powi (float_exponent x - 52)"
  let ?n = "round_half_even (x / ?q)"
  have x: "x \<noteq> 0" "\<bar>x\<bar> = x" using assms by simp_all
  have q: "0 < ?q" by simp
  from scaled_bounds [OF x(1)]
  have a: "real_of_int (2 ^ 52) \<le> x / ?q" and b: "x / ?q \<le> real_of_int (2 ^ 53)"
    by (simp_all add: x(2))
  have "2 ^ 52 \<le> ?n" "?n \<le> 2 ^ 53"
    by (rule round_half_even_lower [OF a], rule round_half_even_upper [OF b])
  then have "real_of_int (2 ^ 52) \<le> of_int ?n" "real_of_int ?n \<le> of_int (2 ^ 53)"
    by (simp_all only: of_int_le_iff)
  then have "2 ^ 52 * ?q \<le> of_int ?n * ?q" "of_int ?n * ?q \<le> 2 ^ 53 * ?q"
    using q by (simp_all add: mult_right_mono)
  then show "2 powi float_exponent x \<le> round_f64 x"
    and "round_f64 x \<le> 2 powi (float_exponent x + 1)"
    by (simp_all only: binade_quantum [of "float_exponent x"] round_f64_scaled [OF x(1)])
qed

lemma round_f64_fixed_aux:
  assumes "x = of_int M * 2 powi k" and "x \<noteq> 0" and "float_exponent x \<le> 52 + k"
  shows "round_f64 x = x"
proof -
  let ?e = "float_exponent x"
  define j where "j = nat (k - (?e - 52))"
  have j: "k - (?e - 52) = int j" using assms(3) by (simp add: j_def)
  have "(2::real) powi (k - (?e - 52)) = 2 powi k / 2 powi (?e - 52)"
    by (rule power_int_diff) simp
  then have pw: "(2::real) powi k / 2 powi (?e - 52) = 2 ^ j" by (simp add: j)
  have "x / 2 powi (?e - 52) = of_int M * (2 powi k / 2 powi (?e - 52))"
    by (simp add: assms(1))
  also have "\<dots> = of_int (M * 2 ^ j)" by (simp add: pw)
  finally have sc: "x / 2 powi (?e - 52) = of_int (M * 2 ^ j)" .
  have "round_f64 x = of_int (M * 2 ^ j) * 2 powi (?e - 52)"
    by (simp only: round_f64_scaled [OF assms(2)] sc round_half_even_of_int)
  also have "\<dots> = x / 2 powi (?e - 52) * 2 powi (?e - 52)" by (simp only: sc)
  also have "\<dots> = x" by simp
  finally show ?thesis .
qed

lemma round_f64_fixed:
  assumes "\<bar>M\<bar> \<le> 2 ^ 53"
  shows "round_f64 (of_int M * 2 powi k) = of_int M * 2 powi k"
proof (cases "M = 0")
  case True
  then show ?thesis by (simp add: round_f64_zero)
next
  case False
  let ?x = "real_of_int M * 2 powi k"
  have x: "?x \<noteq> 0" using False by simp
  have absx: "\<bar>?x\<bar> = of_int \<bar>M\<bar> * 2 powi k" by (simp add: abs_mult)
  have "real_of_int \<bar>M\<bar> \<le> of_int (2 ^ 53)" using assms by (simp only: of_int_le_iff)
  then have "\<bar>?x\<bar> \<le> 2 ^ 53 * 2 powi k" unfolding absx by (simp add: mult_right_mono)
  also have "\<dots> = 2 powi (53 + k)"
    using power_int_add [of "2::real" 53 k] by simp
  finally have le: "\<bar>?x\<bar> \<le> 2 powi (53 + k)" .
  have e: "float_exponent ?x \<le> 53 + k"
  proof (rule ccontr)
    assume "\<not> float_exponent ?x \<le> 53 + k"
    then have "(2::real) powi (53 + k) < 2 powi float_exponent ?x"
      by (intro power_int_strict_increasing) simp_all
    with float_exponent_bounds(1) [OF x] le show False by linarith
  qed
  show ?thesis
  proof (cases "float_exponent ?x \<le> 52 + k")
    case True
    show ?thesis by (rule round_f64_fixed_aux [OF refl x True])
  next
    case False
    with e have ex: "float_exponent ?x = 53 + k" by simp
    from float_exponent_bounds(1) [OF x] have "2 powi (53 + k) \<le> \<bar>?x\<bar>" by (simp only: ex)
    with le have "\<bar>?x\<bar> = 2 powi (53 + k)" by simp
    then have "real_of_int \<bar>M\<bar> * 2 powi k = 2 ^ 53 * 2 powi k"
      using power_int_add [of "2::real" 53 k] by (simp add: absx)
    then have "real_of_int \<bar>M\<bar> = of_int (2 ^ 53)" by simp
    then have "\<bar>M\<bar> = 2 ^ 53" by (simp only: of_int_eq_iff)
    then have "even M" by (cases "0 \<le> M") (simp_all add: abs_if, presburger+)
    then obtain M' where M: "M = 2 * M'" by (elim evenE)
    have "(2::real) powi (k + 1) = 2 powi k * 2"
      using power_int_add [of "2::real" k 1] by simp
    then have x': "?x = of_int M' * 2 powi (k + 1)" by (simp add: M)
    have "float_exponent ?x \<le> 52 + (k + 1)" using ex by simp
    from round_f64_fixed_aux [OF x' x this] show ?thesis .
  qed
qed

lemma round_f64_idem: "round_f64 (round_f64 x) = round_f64 x"
proof (cases "x = 0")
  case True
  then show ?thesis by (simp add: round_f64_zero)
next
  case False
  let ?q = "(2::real) powi (float_exponent x - 52)"
  let ?n = "round_half_even (x / ?q)"
  have q: "0 < ?q" by simp
  have up: "x / ?q \<le> \<bar>x\<bar> / ?q" by (intro divide_right_mono) simp_all
  have "- \<bar>x\<bar> / ?q \<le> x / ?q" by (intro divide_right_mono) simp_all
  then have lo: "- (\<bar>x\<bar> / ?q) \<le> x / ?q" by simp
  note ub = scaled_bounds(2) [OF False]
  have "x / ?q \<le> 2 ^ 53" using up ub by (rule order_trans [OF _ less_imp_le])
  then have a: "x / ?q \<le> real_of_int (2 ^ 53)" by simp
  have "- (2 ^ 53) \<le> - (\<bar>x\<bar> / ?q)" using ub by (simp only: neg_le_iff_le less_imp_le)
  then have "- (2 ^ 53) \<le> x / ?q" using lo by (rule order_trans)
  then have b: "real_of_int (- (2 ^ 53)) \<le> x / ?q" by simp
  have "?n \<le> 2 ^ 53" "- (2 ^ 53) \<le> ?n"
    by (rule round_half_even_upper [OF a], rule round_half_even_lower [OF b])
  then have "\<bar>?n\<bar> \<le> 2 ^ 53" by simp
  from round_f64_fixed [OF this, of "float_exponent x - 52"]
  show ?thesis by (simp only: round_f64_scaled [OF False])
qed

lemma is_f64_round: "is_f64 (round_f64 x)"
  by (simp add: is_f64_def round_f64_idem)

lemma round_f64_of_int: "\<bar>n\<bar> \<le> 2 ^ 53 \<Longrightarrow> round_f64 (of_int n) = of_int n"
  using round_f64_fixed [of n 0] by simp

lemma round_f64_mono_pos:
  assumes "0 < x" and "x \<le> y"
  shows "round_f64 x \<le> round_f64 y"
proof -
  have y: "0 < y" using assms by simp
  have x0: "x \<noteq> 0" and y0: "y \<noteq> 0" using assms by simp_all
  have "float_exponent x < float_exponent y + 1"
  proof (rule ccontr)
    assume "\<not> float_exponent x < float_exponent y + 1"
    then have "(2::real) powi (float_exponent y + 1) \<le> 2 powi float_exponent x"
      by (intro power_int_increasing) simp_all
    with float_exponent_bounds(1) [OF x0] float_exponent_bounds(2) [OF y0] assms y
    show False by simp
  qed
  then consider "float_exponent x = float_exponent y" | "float_exponent x + 1 \<le> float_exponent y"
    by linarith
  then show ?thesis
  proof cases
    case 1
    let ?q = "(2::real) powi (float_exponent y - 52)"
    have "x / ?q \<le> y / ?q" using assms(2) by (simp add: divide_right_mono)
    then have "round_half_even (x / ?q) \<le> round_half_even (y / ?q)"
      by (rule round_half_even_mono)
    then have "real_of_int (round_half_even (x / ?q)) * ?q \<le> of_int (round_half_even (y / ?q)) * ?q"
      by (simp add: mult_right_mono)
    then show ?thesis by (simp only: round_f64_scaled [OF x0] round_f64_scaled [OF y0] 1)
  next
    case 2
    have "round_f64 x \<le> 2 powi (float_exponent x + 1)" by (rule round_f64_binade(2) [OF assms(1)])
    also have "\<dots> \<le> 2 powi float_exponent y" using 2 by (intro power_int_increasing) simp_all
    also have "\<dots> \<le> round_f64 y" by (rule round_f64_binade(1) [OF y])
    finally show ?thesis .
  qed
qed

lemma round_f64_mono:
  assumes "x \<le> y"
  shows "round_f64 x \<le> round_f64 y"
proof -
  consider "0 < x" | "x \<le> 0" "0 \<le> y" | "y < 0" by linarith
  then show ?thesis
  proof cases
    case 1
    then show ?thesis using assms by (rule round_f64_mono_pos)
  next
    case 2
    have "0 \<le> round_f64 (- x)" using 2(1) by (intro round_f64_nonneg) simp
    then have "round_f64 x \<le> 0" by (simp add: round_f64_minus)
    also have "0 \<le> round_f64 y" using 2(2) by (rule round_f64_nonneg)
    finally show ?thesis .
  next
    case 3
    then have "0 < - y" "- y \<le> - x" using assms by simp_all
    then have "round_f64 (- y) \<le> round_f64 (- x)" by (rule round_f64_mono_pos)
    then show ?thesis by (simp add: round_f64_minus)
  qed
qed

subsection \<open>The cell range of a distance below 100\<close>

text \<open>
  The largest \<^verbatim>\<open>float64\<close> below 100 is \<open>100 - 2\<^sup>-\<^sup>4\<^sup>6\<close>; divided by 100 it rounds to
  \<open>1 - 2\<^sup>-\<^sup>5\<^sup>3\<close>, so the truncated range of a distance below 100 is 0.
\<close>

lemma f64_below_100:
  assumes "is_f64 d" and "d < 100"
  shows "d \<le> 100 - 1 / 2 ^ 46"
proof (cases "d < 64")
  case True
  have "(64::real) \<le> 100 - 1 / 2 ^ 46" by simp
  with True show ?thesis by linarith
next
  case False
  then have d: "d \<noteq> 0" "\<bar>d\<bar> = d" by simp_all
  have "float_exponent d = 6"
    using False assms(2) by (intro float_exponent_unique) (simp_all add: d(2))
  then have "round_f64 d = of_int (round_half_even (d / 2 powi (- 46))) * 2 powi (- 46)"
    by (simp add: round_f64_scaled [OF d(1)])
  then obtain n :: int where n: "d = of_int n * 2 powi (- 46)"
    using assms(1) by (auto simp: is_f64_def)
  have pw: "(2::real) powi (- 46) = 1 / 2 ^ 46"
    by (simp add: power_int_minus_divide)
  have "real_of_int n = d * 2 ^ 46" by (simp add: n pw)
  also have "\<dots> < 100 * 2 ^ 46" using assms(2) by simp
  also have "\<dots> = real_of_int (100 * 2 ^ 46)" by simp
  finally have "n < 100 * 2 ^ 46" by (simp only: of_int_less_iff)
  then have "n \<le> 100 * 2 ^ 46 - 1" by simp
  then have "real_of_int n \<le> real_of_int (100 * 2 ^ 46 - 1)" by (simp only: of_int_le_iff)
  then have "real_of_int n * (1 / 2 ^ 46) \<le> real_of_int (100 * 2 ^ 46 - 1) * (1 / 2 ^ 46)"
    by (intro mult_right_mono) simp_all
  then show ?thesis by (simp add: n pw)
qed

lemma round_f64_below_one: "round_f64 (1 - 1 / 2 ^ 53) = 1 - 1 / 2 ^ 53"
  by code_simp

lemma py_int_unit: "0 \<le> z \<Longrightarrow> z < 1 \<Longrightarrow> py_int z = 0"
  by (simp add: py_int_def floor_eq_iff)

lemma cell_range_zero:
  assumes "is_f64 d" and "0 \<le> d" and "d < 100"
  shows "cell_range d = 0"
proof -
  have "d / 100 \<le> (100 - 1 / 2 ^ 46) / 100"
    using f64_below_100 [OF assms(1,3)] by (intro divide_right_mono) simp_all
  also have "\<dots> \<le> 1 - 1 / 2 ^ 53" by simp
  finally have "round_f64 (d / 100) \<le> round_f64 (1 - 1 / 2 ^ 53)" by (rule round_f64_mono)
  then have "round_f64 (d / 100) \<le> 1 - 1 / 2 ^ 53" by (simp only: round_f64_below_one)
  also have "\<dots> < 1" by simp
  finally have "round_f64 (d / 100) < 1" .
  moreover have "0 \<le> round_f64 (d / 100)" using assms(2) by (intro round_f64_nonneg) simp
  ultimately show ?thesis unfolding cell_range_def by (intro py_int_unit)
qed

section \<open>Sums\<close>

lemma seq_sum_nonneg:
  "0 \<le> res \<Longrightarrow> \<forall>a \<in> set as. 0 \<le> a \<Longrightarrow> 0 \<le> seq_sum res as"
  by (induction as arbitrary: res) (simp_all add: round_f64_nonneg)

lemma unrolled_nonneg:
  "length r = 8 \<Longrightarrow> \<forall>u \<in> set r. 0 \<le> u \<Longrightarrow> \<forall>a \<in> set as. 0 \<le> a \<Longrightarrow>
     length (unrolled r as) = 8 \<and> (\<forall>u \<in> set (unrolled r as). 0 \<le> u)"
proof (induction r as rule: unrolled.induct)
  case (1 r as)
  show ?case
  proof (cases "8 \<le> length as")
    case True
    let ?r = "map2 (\<lambda>u v. round_f64 (u + v)) r (take 8 as)"
    have len: "length ?r = 8" using True "1.prems"(1) by simp
    have nonneg: "\<forall>u \<in> set ?r. 0 \<le> u"
    proof
      fix u assume "u \<in> set ?r"
      then obtain a b where "u = round_f64 (a + b)" "a \<in> set r" "b \<in> set (take 8 as)"
        by (auto dest: set_zip_leftD set_zip_rightD)
      with "1.prems"(2,3) show "0 \<le> u"
        by (auto intro!: round_f64_nonneg add_nonneg_nonneg dest: in_set_takeD)
    qed
    have rest: "\<forall>a \<in> set (drop 8 as). 0 \<le> a"
      using "1.prems"(3) by (auto dest: in_set_dropD)
    from "1.IH" [OF True len nonneg rest] True show ?thesis
      by (subst (1 2) unrolled.simps) simp
  next
    case False
    with "1.prems" show ?thesis by (subst (1 2) unrolled.simps) simp
  qed
qed

lemma pairwise_sum_nonneg:
  "\<forall>v \<in> set a. 0 \<le> v \<Longrightarrow> 0 \<le> pairwise_sum a"
proof (induction a rule: pairwise_sum.induct)
  case (1 a)
  consider "length a < 8" | "8 \<le> length a" "length a \<le> 128" | "128 < length a" by linarith
  then show ?case
  proof cases
    case 1
    then show ?thesis
      using "1.prems" by (subst pairwise_sum.simps) (simp add: seq_sum_nonneg)
  next
    case 2
    let ?r = "unrolled (take 8 a) (drop 8 a)"
    have "length (take 8 a) = 8" using 2(1) by simp
    moreover have "\<forall>u \<in> set (take 8 a). 0 \<le> u" using "1.prems" by (auto dest: in_set_takeD)
    moreover have "\<forall>u \<in> set (drop 8 a). 0 \<le> u" using "1.prems" by (auto dest: in_set_dropD)
    ultimately have r: "length ?r = 8" "\<forall>u \<in> set ?r. 0 \<le> u"
      using unrolled_nonneg [of "take 8 a" "drop 8 a"] by simp_all
    have nth: "0 \<le> ?r ! i" if "i < 8" for i
      using r that by (metis nth_mem)
    have res: "0 \<le> round_f64
                     (round_f64 (round_f64 (?r ! 0 + ?r ! 1) + round_f64 (?r ! 2 + ?r ! 3)) +
                      round_f64 (round_f64 (?r ! 4 + ?r ! 5) + round_f64 (?r ! 6 + ?r ! 7)))"
      by (intro round_f64_nonneg add_nonneg_nonneg nth) simp_all
    have rest: "\<forall>u \<in> set (drop (length a - length a mod 8) a). 0 \<le> u"
      using "1.prems" by (auto dest: in_set_dropD)
    show ?thesis
      using 2 seq_sum_nonneg [OF res rest]
      by (subst pairwise_sum.simps) (simp add: Let_def)
  next
    case 3
    let ?k = "length a div 2 - length a div 2 mod 8"
    have c: "\<not> length a < 8" "\<not> length a \<le> 128" using 3 by simp_all
    have "0 \<le> pairwise_sum (take ?k a)"
      using "1.prems" by (intro "1.IH"(1) [OF c]) (auto dest: in_set_takeD)
    moreover have "0 \<le> pairwise_sum (drop ?k a)"
      using "1.prems" by (intro "1.IH"(2) [OF c]) (auto dest: in_set_dropD)
    ultimately show ?thesis
      using c by (subst pairwise_sum.simps) (simp add: round_f64_nonneg)
  qed
qed

lemma pairwise_sum_Nil: "pairwise_sum [] = 0"
  by (subst pairwise_sum.simps) simp

lemma pairwise_sum_single: "pairwise_sum [v] = round_f64 v"
  by (subst pairwise_sum.simps) simp

lemma fold_add_nonneg:
  "0 \<le> io1 \<Longrightarrow> \<forall>run \<in> set runs. \<forall>v \<in> set run. 0 \<le> v \<Longrightarrow>
     0 \<le> fold (\<lambda>run io1. round_f64 (io1 + pairwise_sum run)) runs io1"
  by (induction runs arbitrary: io1) (simp_all add: round_f64_nonneg pairwise_sum_nonneg)

lemma add_reduce_nonneg:
  "\<forall>run \<in> set runs. \<forall>v \<in> set run. 0 \<le> v \<Longrightarrow> 0 \<le> add_reduce runs"
  unfolding add_reduce_def by (rule fold_add_nonneg) simp_all

lemma np_sum_view_nonneg:
  assumes "\<forall>row \<in> set v. \<forall>x \<in> set row. 0 \<le> x"
  shows "0 \<le> np_sum_view n v"
  unfolding np_sum_view_def view_runs_def using assms
  by (intro add_reduce_nonneg) auto

lemma add_reduce_empty: "\<forall>run \<in> set runs. run = [] \<Longrightarrow> add_reduce runs = 0"
proof -
  have "\<forall>run \<in> set runs. run = [] \<Longrightarrow>
          fold (\<lambda>run io1. round_f64 (io1 + pairwise_sum run)) runs 0 = 0"
    by (induction runs) (simp_all add: pairwise_sum_Nil round_f64_zero)
  then show "\<forall>run \<in> set runs. run = [] \<Longrightarrow> add_reduce runs = 0"
    by (simp add: add_reduce_def)
qed

lemma np_sum_view_empty:
  assumes "\<forall>row \<in> set v. row = []"
  shows "np_sum_view n v = 0"
  unfolding np_sum_view_def view_runs_def using assms
  by (intro add_reduce_empty) auto

lemma np_sum_view_single: "is_f64 v \<Longrightarrow> np_sum_view n [[v]] = v"
  by (simp add: np_sum_view_def view_runs_def add_reduce_def pairwise_sum_single is_f64_def)

section \<open>Slices\<close>

text \<open>
  As long as the end index is not negative, a slice \<open>[max 0 lo : min n hi]\<close> holds the
  elements with the indices of \<open>[0, n)\<close> from \<open>lo\<close> up to \<open>hi\<close>. A negative end index is
  read from the far end of the axis; \<open>slice_bound\<close> models that.
\<close>

lemma slice_bound_le: "slice_bound n k \<le> n"
  by (auto simp: slice_bound_def)

lemma slice_bound_start: "slice_bound n (max 0 s) = min n (nat s)"
  by (simp add: slice_bound_def max_def)

lemma slice_bound_end: "0 \<le> e \<Longrightarrow> slice_bound n (min (int n) e) = min n (nat e)"
  by (auto simp: slice_bound_def min_def)

lemma py_slice_take_drop:
  "py_slice xs a b =
     take (slice_bound (length xs) b - slice_bound (length xs) a)
          (drop (slice_bound (length xs) a) xs)"
  by (simp add: py_slice_def Let_def)

lemma take_drop_nth:
  assumes "b \<le> length xs"
  shows "take (b - a) (drop a xs) = map ((!) xs) [a..<b]"
  using assms by (auto simp: list_eq_iff_nth_eq)

lemma index_window_upt:
  assumes "0 \<le> hi"
  shows "index_window n lo hi = [slice_bound n (max 0 lo)..<slice_bound n (min (int n) hi)]"
proof (rule sorted_distinct_set_unique)
  show "sorted (index_window n lo hi)" by (simp add: index_window_def sorted_wrt_filter)
  show "distinct (index_window n lo hi)" by (simp add: index_window_def)
  show "set (index_window n lo hi)
          = set [slice_bound n (max 0 lo)..<slice_bound n (min (int n) hi)]"
    using assms by (auto simp: index_window_def slice_bound_start slice_bound_end)
qed simp_all

lemma py_slice_window:
  assumes "0 \<le> hi"
  shows "py_slice xs (max 0 lo) (min (int (length xs)) hi)
           = map ((!) xs) (index_window (length xs) lo hi)"
  unfolding py_slice_take_drop index_window_upt [OF assms]
  by (rule take_drop_nth) (rule slice_bound_le)

lemma index_window_bound: "i \<in> set (index_window n lo hi) \<Longrightarrow> i < n"
  by (simp add: index_window_def)

lemma slice2_window:
  assumes "is_matrix m" and "0 \<le> hi_i" and "0 \<le> hi_j"
  shows "slice2 m (max 0 lo_i) (min (int (fst (shape m))) hi_i)
                  (max 0 lo_j) (min (int (snd (shape m))) hi_j)
           = sub_matrix m (index_window (fst (shape m)) lo_i hi_i)
                          (index_window (snd (shape m)) lo_j hi_j)"
proof -
  have len: "fst (shape m) = length m" by (simp add: shape_def)
  have row: "py_slice (m ! i) (max 0 lo_j) (min (int (snd (shape m))) hi_j)
               = map (\<lambda>j. m ! i ! j) (index_window (snd (shape m)) lo_j hi_j)"
    if "i \<in> set (index_window (length m) lo_i hi_i)" for i
  proof -
    have "i < length m" using that by (rule index_window_bound)
    then have "length (m ! i) = snd (shape m)" using assms(1) by (simp add: is_matrix_def)
    with py_slice_window [OF assms(3), of "m ! i" lo_j] show ?thesis by simp
  qed
  show ?thesis
    unfolding slice2_def sub_matrix_def len py_slice_window [OF assms(2)]
    by (simp add: row)
qed

lemma find_affected_population_cells:
  "find_affected_population m centre d = np_sum_view (snd (shape m)) (affected_cells m centre d)"
  by (simp add: find_affected_population_def affected_cells_def centre_cell_def cell_range_def
      lower_index_def upper_index_def Let_def split: prod.splits)

lemma py_slice_empty_start:
  assumes "int (length xs) \<le> lo"
  shows "py_slice xs (max 0 lo) e = []"
proof -
  have "slice_bound (length xs) (max 0 lo) = length xs"
    unfolding slice_bound_start using assms by simp
  then show ?thesis by (simp add: py_slice_take_drop)
qed

lemma py_slice_empty_end: "py_slice xs s (min (int (length xs)) 0) = []"
  by (simp add: py_slice_take_drop slice_bound_def)

lemma slice2_rows_empty:
  assumes "is_matrix m"
    and "int (fst (shape m)) \<le> lo_i \<or> hi_i = 0 \<or> int (snd (shape m)) \<le> lo_j \<or> hi_j = 0"
  shows "\<forall>row \<in> set (slice2 m (max 0 lo_i) (min (int (fst (shape m))) hi_i)
                              (max 0 lo_j) (min (int (snd (shape m))) hi_j)). row = []"
proof -
  have len: "fst (shape m) = length m" by (simp add: shape_def)
  have rows: "length r = snd (shape m)"
    if "r \<in> set (py_slice m (max 0 lo_i) (min (int (length m)) hi_i))" for r
    using that assms(1)
    by (auto simp: py_slice_take_drop is_matrix_def dest!: in_set_takeD in_set_dropD)
  from assms(2) consider "int (length m) \<le> lo_i" | "hi_i = 0"
    | "int (snd (shape m)) \<le> lo_j" | "hi_j = 0"
    by (auto simp: len)
  then show ?thesis
  proof cases
    case 1
    show ?thesis
      unfolding slice2_def len py_slice_empty_start [OF 1] by simp
  next
    case 2
    show ?thesis
      unfolding slice2_def len 2 py_slice_empty_end by simp
  next
    case 3
    show ?thesis
      unfolding slice2_def len
    proof (intro ballI)
      fix row
      assume "row \<in> set (map (\<lambda>row. py_slice row (max 0 lo_j) (min (int (snd (shape m))) hi_j))
                             (py_slice m (max 0 lo_i) (min (int (length m)) hi_i)))"
      then obtain r where r: "r \<in> set (py_slice m (max 0 lo_i) (min (int (length m)) hi_i))"
        and row: "row = py_slice r (max 0 lo_j) (min (int (snd (shape m))) hi_j)"
        by auto
      have "int (length r) \<le> lo_j" using 3 rows [OF r] by simp
      then show "row = []" unfolding row by (rule py_slice_empty_start)
    qed
  next
    case 4
    show ?thesis
      unfolding slice2_def len
    proof (intro ballI)
      fix row
      assume "row \<in> set (map (\<lambda>row. py_slice row (max 0 lo_j) (min (int (snd (shape m))) hi_j))
                             (py_slice m (max 0 lo_i) (min (int (length m)) hi_i)))"
      then obtain r where r: "r \<in> set (py_slice m (max 0 lo_i) (min (int (length m)) hi_i))"
        and row: "row = py_slice r (max 0 lo_j) (min (int (snd (shape m))) hi_j)"
        by auto
      show "row = []"
        unfolding row 4 rows [OF r, symmetric] by (rule py_slice_empty_end)
    qed
  qed
qed

lemma py_int_index:
  assumes "0 \<le> c" and "c < real n"
  shows "py_int c = int (nat (py_int c))" and "nat (py_int c) < n"
proof -
  have fl: "0 \<le> \<lfloor>c\<rfloor>" "\<lfloor>c\<rfloor> < int n"
    using assms by (simp_all add: floor_less_iff)
  have k: "py_int c = \<lfloor>c\<rfloor>" using assms(1) by (simp add: py_int_def)
  show "py_int c = int (nat (py_int c))" unfolding k using fl(1) by simp
  show "nat (py_int c) < n" unfolding k using fl by linarith
qed

lemma index_window_one:
  assumes "k < n"
  shows "index_window n (int k) (int k + 1) = [k]"
proof -
  have "index_window n (int k) (int k + 1)
          = [slice_bound n (max 0 (int k))..<slice_bound n (min (int n) (int k + 1))]"
    by (rule index_window_upt) simp
  also have "slice_bound n (max 0 (int k)) = k"
    unfolding slice_bound_start using assms by simp
  also have "slice_bound n (min (int n) (int k + 1)) = Suc k"
    using assms by (subst slice_bound_end) simp_all
  finally show ?thesis by simp
qed

lemma single_index_window:
  assumes "0 \<le> c" and "c < real n"
  shows "index_window n (py_int c) (py_int c + 1) = [nat (py_int c)]"
  using index_window_one [OF py_int_index(2) [OF assms]] py_int_index(1) [OF assms]
  by simp

lemma upper_index_zero_range: "upper_index (centre_cell x) 0 = py_int (round_f64 (centre_cell x + 1))"
  by (simp add: upper_index_def centre_cell_def round_f64_idem)

lemma lower_index_zero_range: "lower_index (centre_cell x) 0 = py_int (centre_cell x)"
  by (simp add: lower_index_def centre_cell_def round_f64_idem)

section \<open>Exact sums of a slice\<close>

lemma sum_list_take_drop_bounds:
  fixes xs :: "real list"
  assumes "\<forall>v \<in> set xs. 0 \<le> v"
  shows "0 \<le> sum_list (take k (drop l xs)) \<and> sum_list (take k (drop l xs)) \<le> sum_list xs"
proof -
  have s1: "sum_list (take l xs) + sum_list (drop l xs) = sum_list xs"
    by (simp only: sum_list_append [symmetric] append_take_drop_id)
  have s2: "sum_list (take k (drop l xs)) + sum_list (drop k (drop l xs)) = sum_list (drop l xs)"
    by (simp only: sum_list_append [symmetric] append_take_drop_id)
  have a: "0 \<le> sum_list (take l xs)"
    using assms by (intro sum_list_nonneg) (auto dest: in_set_takeD)
  have b: "0 \<le> sum_list (take k (drop l xs))"
    using assms by (intro sum_list_nonneg) (auto dest: in_set_takeD in_set_dropD)
  have c: "0 \<le> sum_list (drop k (drop l xs))"
    using assms by (intro sum_list_nonneg) (auto dest: in_set_dropD)
  from s1 s2 a b c show ?thesis by linarith
qed

lemma sum_list_py_slice_bounds:
  fixes xs :: "real list"
  assumes "\<forall>v \<in> set xs. 0 \<le> v"
  shows "0 \<le> sum_list (py_slice xs a b)" and "sum_list (py_slice xs a b) \<le> sum_list xs"
  using sum_list_take_drop_bounds [OF assms] by (simp_all add: py_slice_take_drop)

lemma sum_list_concat_rows: "sum_list (concat m) = (\<Sum>row\<leftarrow>m. sum_list row)"
  for m :: matrix
  by (induction m) simp_all

lemma slice2_entries:
  assumes "row \<in> set (slice2 m si ei sj ej)" and "v \<in> set row"
  shows "\<exists>r \<in> set m. v \<in> set r"
  using assms
  by (auto simp: slice2_def py_slice_take_drop dest!: in_set_takeD in_set_dropD)

lemma slice2_exact_sum_bounds:
  assumes "nonneg_grid m"
  shows "0 \<le> sum_list (concat (slice2 m si ei sj ej))
       \<and> sum_list (concat (slice2 m si ei sj ej)) \<le> sum_list (concat m)"
proof -
  let ?rows = "py_slice m si ei"
  have rows: "\<And>row. row \<in> set ?rows \<Longrightarrow> \<forall>v \<in> set row. 0 \<le> v"
    using assms by (auto simp: nonneg_grid_def py_slice_take_drop dest!: in_set_takeD in_set_dropD)
  have sums: "\<forall>v \<in> set (map sum_list m). 0 \<le> v"
    using assms by (auto simp: nonneg_grid_def intro: sum_list_nonneg)
  have eq: "sum_list (concat (slice2 m si ei sj ej))
              = (\<Sum>row\<leftarrow>?rows. sum_list (py_slice row sj ej))"
    by (simp add: sum_list_concat_rows slice2_def comp_def)
  have lower: "0 \<le> (\<Sum>row\<leftarrow>?rows. sum_list (py_slice row sj ej))"
    by (rule sum_list_nonneg) (auto dest!: rows intro: sum_list_py_slice_bounds(1))
  have "(\<Sum>row\<leftarrow>?rows. sum_list (py_slice row sj ej)) \<le> (\<Sum>row\<leftarrow>?rows. sum_list row)"
    by (rule sum_list_mono) (auto dest!: rows intro: sum_list_py_slice_bounds(2))
  also have "(\<Sum>row\<leftarrow>?rows. sum_list row) = sum_list (py_slice (map sum_list m) si ei)"
    by (simp add: py_slice_take_drop take_map drop_map)
  also have "\<dots> \<le> sum_list (map sum_list m)"
    by (rule sum_list_py_slice_bounds(2) [OF sums])
  finally have upper:
    "(\<Sum>row\<leftarrow>?rows. sum_list (py_slice row sj ej)) \<le> sum_list (map sum_list m)" .
  show ?thesis
    unfolding eq sum_list_concat_rows [of m] using lower upper by (rule conjI)
qed

section \<open>The percentage at a zero total\<close>

lemma percentage_zero_total:
  "np_times (np_true_divide a 0) 100 = (if a = 0 then NaN else if 0 < a then PosInf else NegInf)"
  by (simp add: np_true_divide_def np_times_def)

section \<open>The claims of the specification\<close>

subsection \<open>The outbreak centre\<close>

text \<open>
  Claim C1. For at least one case, \<open>find_outbreak_centre\<close> returns the (x, y) coordinate
  of the case whose index is the row of the maximum entry of the distance matrix; among
  equal maximal entries the first in row-major order decides (every entry before it is
  strictly smaller). The centre is therefore the coordinate of one of the cases.
\<close>

theorem find_outbreak_centre_first_max:
  assumes "locations \<noteq> []"
  shows "\<exists>i j. first_max_entry (calculate_distance_matrix locations) (length locations) i j
             \<and> find_outbreak_centre locations = Inr (xy (locations ! i))
             \<and> xy (locations ! i) \<in> set (map xy locations)"
proof -
  from outbreak_centre_first_max [OF assms] obtain i j
    where *: "first_max_entry (calculate_distance_matrix locations) (length locations) i j"
      "find_outbreak_centre locations = Inr (xy (locations ! i))"
    by blast
  from *(1) have "i < length locations" by (simp add: first_max_entry_def)
  then have "xy (locations ! i) \<in> set (map xy locations)" by simp
  with * show ?thesis by blast
qed

theorem find_outbreak_centre_first_max_witness:
  "three_cases \<noteq> [] \<and>
   (\<exists>i j. first_max_entry (calculate_distance_matrix three_cases) (length three_cases) i j
       \<and> find_outbreak_centre three_cases = Inr (xy (three_cases ! i))
       \<and> xy (three_cases ! i) \<in> set (map xy three_cases))"
proof -
  have h: "three_cases \<noteq> []" by simp
  show ?thesis using h find_outbreak_centre_first_max [OF h] by (rule conjI)
qed

text \<open>
  Claim C8. With exactly one case the distance matrix is the 1 by 1 zero matrix, the
  maximum distance is 0 and the centre is that case's coordinate.
\<close>

theorem single_case:
  "calculate_distance_matrix [c] = [[0]]
   \<and> amax (concat (calculate_distance_matrix [c])) = Inr 0
   \<and> find_outbreak_centre [c] = Inr (col1 c, col2 c)"
  by (simp add: distance_matrix_single amax_def find_outbreak_centre_def argmax_def
      unravel_index_def shape_def)

subsection \<open>The distance matrix\<close>



text \<open>
  Claim C6. The distance matrix is symmetric, its diagonal is exactly 0 and every entry
  is non-negative.
\<close>

theorem distance_matrix_symmetric:
  assumes "i < length locations" and "j < length locations"
  shows "calculate_distance_matrix locations ! i ! j = calculate_distance_matrix locations ! j ! i
       \<and> calculate_distance_matrix locations ! i ! i = 0
       \<and> 0 \<le> calculate_distance_matrix locations ! i ! j"
  using assms by (simp add: distance_matrix_entry power2_commute)

theorem distance_matrix_symmetric_witness:
  "1 < length three_cases \<and> 2 < length three_cases \<and>
   calculate_distance_matrix three_cases ! 1 ! 2 = calculate_distance_matrix three_cases ! 2 ! 1 \<and>
   calculate_distance_matrix three_cases ! 1 ! 1 = 0 \<and>
   0 \<le> calculate_distance_matrix three_cases ! 1 ! 2"
proof -
  have h1: "1 < length three_cases" and h2: "2 < length three_cases" by simp_all
  show ?thesis using h1 h2 distance_matrix_symmetric [OF h1 h2] by (intro conjI) blast+
qed

subsection \<open>The affected population\<close>

text \<open>
  Claim C2 says that the window of grid indices on each axis is
  \<open>[centre_cell - r, centre_cell + r]\<close>, both ends included, cut to \<open>[0, dimension)\<close>, and
  that the result is the sum of the cells inside. \<open>spec_affected_population\<close> is that
  algorithm, the two bounds made indices by truncation toward zero. The code computes its
  excluded end as \<open>int (centre_cell + r + 1)\<close>, which is not always one more than
  \<open>int (centre_cell + r)\<close>:
  \<^item> for the centre (-50, 0) and \<open>max_distance = 0\<close> the claim's window is
    \<open>[int (-0.5), int (-0.5)] = [0, 0]\<close>, the cell of value 1, but the code's end index is
    \<open>int (0.5) = 0\<close> and its window is empty;
  \<^item> for the centre \<open>(100 - 2\<^sup>-\<^sup>4\<^sup>6, 0)\<close>, the \<^verbatim>\<open>float64\<close> next below 100, the centre cell
    is \<open>1 - 2\<^sup>-\<^sup>5\<^sup>3\<close> and the claim's window is \<open>[0, 0]\<close>, but \<open>centre_cell + 1\<close> rounds
    to 2 and the code sums the cells 0 and 1.
\<close>

theorem spec_window_counterexample:
  "find_affected_population column_grid (- 50, 0) 0 = 0 \<and>
   spec_affected_population column_grid (- 50, 0) 0 = 1 \<and>
   find_affected_population two_cells (100 - 1 / 2 ^ 46, 0) 0 = 3 \<and>
   spec_affected_population two_cells (100 - 1 / 2 ^ 46, 0) 0 = 1"
  by code_simp

text \<open>
  Claim C2, amended. With \<open>r\<close> the truncated \<open>max_distance / 100\<close> and \<open>c\<close> the centre
  coordinate divided by 100: on each axis the window holds the grid indices of
  \<open>[0, dimension)\<close> from \<open>int (c - r)\<close> up to, and without, \<open>int (c + r + 1)\<close>, both bounds
  computed in \<^verbatim>\<open>float64\<close> and truncated toward zero, and the result is \<^verbatim>\<open>np.sum\<close> of the
  grid cells inside the window. This holds whenever the end index \<open>int (c + r + 1)\<close> is not
  negative on either axis.
\<close>

theorem affected_population_index_window:
  assumes "is_matrix m"
    and "0 \<le> upper_index (centre_cell x) (cell_range d)"
    and "0 \<le> upper_index (centre_cell y) (cell_range d)"
  shows "find_affected_population m (x, y) d =
           np_sum_view (snd (shape m))
             (sub_matrix m
                (index_window (fst (shape m)) (lower_index (centre_cell x) (cell_range d))
                                              (upper_index (centre_cell x) (cell_range d)))
                (index_window (snd (shape m)) (lower_index (centre_cell y) (cell_range d))
                                              (upper_index (centre_cell y) (cell_range d))))"
  unfolding find_affected_population_cells affected_cells_def fst_conv snd_conv
  by (simp only: slice2_window [OF assms])

theorem affected_population_index_window_witness:
  "is_matrix column_grid \<and>
   0 \<le> upper_index (centre_cell 250) (cell_range 100) \<and>
   0 \<le> upper_index (centre_cell 0) (cell_range 100) \<and>
   find_affected_population column_grid (250, 0) 100 =
     np_sum_view (snd (shape column_grid))
       (sub_matrix column_grid
          (index_window (fst (shape column_grid)) (lower_index (centre_cell 250) (cell_range 100))
                                                  (upper_index (centre_cell 250) (cell_range 100)))
          (index_window (snd (shape column_grid)) (lower_index (centre_cell 0) (cell_range 100))
                                                  (upper_index (centre_cell 0) (cell_range 100))))"
proof -
  have h1: "is_matrix column_grid" by (simp add: is_matrix_def shape_def)
  have h2: "0 \<le> upper_index (centre_cell 250) (cell_range 100)" by code_simp
  have h3: "0 \<le> upper_index (centre_cell 0) (cell_range 100)" by code_simp
  show ?thesis
    using h1 h2 h3 affected_population_index_window [OF h1 h2 h3] by (intro conjI)
qed

text \<open>
  Claim C3 says that a centre outside the grid gives an empty window and the result 0,
  whatever \<open>max_distance\<close> is. A window around a centre outside the grid can still reach
  the grid: the centre (-50, 50) with \<open>max_distance = 200\<close> on a 3 by 3 grid of ones
  gives 6.
\<close>

theorem centre_outside_grid_counterexample:
  "is_matrix ones_3x3 \<and> \<not> centre_in_grid ones_3x3 (- 50, 50) \<and>
   find_affected_population ones_3x3 (- 50, 50) 200 = 6"
  by code_simp

text \<open>
  Claim C3, amended. With \<open>r\<close> the truncated \<open>max_distance / 100\<close> and \<open>c\<close> the centre
  coordinate divided by 100, the bounds computed in \<^verbatim>\<open>float64\<close>: if on some axis the start
  index \<open>int (c - r)\<close> is at least the grid dimension (the centre lies beyond the far edge
  by the range or more), or the end index \<open>int (c + r + 1)\<close> is exactly 0 (the centre lies
  before the origin by more than the range, and by less than two cells more), the window
  is empty and the result is 0. The function has no error path. Nothing is said here of
  a centre further before the origin, where the end index is negative.
\<close>

theorem affected_population_window_misses_grid:
  assumes "is_matrix m"
    and "int (fst (shape m)) \<le> lower_index (centre_cell x) (cell_range d)
       \<or> upper_index (centre_cell x) (cell_range d) = 0
       \<or> int (snd (shape m)) \<le> lower_index (centre_cell y) (cell_range d)
       \<or> upper_index (centre_cell y) (cell_range d) = 0"
  shows "find_affected_population m (x, y) d = 0"
  unfolding find_affected_population_cells affected_cells_def fst_conv snd_conv
  by (rule np_sum_view_empty) (rule slice2_rows_empty [OF assms])

theorem affected_population_window_misses_grid_witness:
  "is_matrix ones_3x3 \<and>
   (int (fst (shape ones_3x3)) \<le> lower_index (centre_cell (- 150)) (cell_range 0)
       \<or> upper_index (centre_cell (- 150)) (cell_range 0) = 0
       \<or> int (snd (shape ones_3x3)) \<le> lower_index (centre_cell 50) (cell_range 0)
       \<or> upper_index (centre_cell 50) (cell_range 0) = 0) \<and>
   find_affected_population ones_3x3 (- 150, 50) 0 = 0"
proof -
  have h1: "is_matrix ones_3x3" by (simp add: is_matrix_def shape_def)
  have "upper_index (centre_cell (- 150)) (cell_range 0) = 0" by code_simp
  then have h2: "int (fst (shape ones_3x3)) \<le> lower_index (centre_cell (- 150)) (cell_range 0)
       \<or> upper_index (centre_cell (- 150)) (cell_range 0) = 0
       \<or> int (snd (shape ones_3x3)) \<le> lower_index (centre_cell 50) (cell_range 0)
       \<or> upper_index (centre_cell 50) (cell_range 0) = 0"
    by (intro disjI2 disjI1)
  show ?thesis
    using h1 h2 affected_population_window_misses_grid [OF h1 h2] by (intro conjI)
qed

text \<open>
  Claim C4. For a fixed grid and centre the affected population does not decrease when
  \<open>max_distance\<close> grows. The code breaks this where the end index of the slice is
  negative: on a column of ten cells of value 1 and the centre (-550, 0),
  \<open>max_distance = 300\<close> gives the end index \<open>int (-1.5) = -1\<close>, which the slice reads as
  "all rows but the last", so the sum is 9; \<open>max_distance = 400\<close> gives the end index
  \<open>int (-0.5) = 0\<close> and the sum 0.
\<close>

theorem affected_population_not_monotone:
  "find_affected_population ones_10x1 (- 550, 0) 300 = 9 \<and>
   find_affected_population ones_10x1 (- 550, 0) 400 = 0 \<and>
   \<not> find_affected_population ones_10x1 (- 550, 0) 300
       \<le> find_affected_population ones_10x1 (- 550, 0) 400"
  by code_simp

text \<open>
  Claim C7 says that on a grid without negative entries the affected population is
  non-negative and at most the sum of the whole grid. The two sums are rounded, each in
  its own order: on the grid below the six cells of the window add up, one after the
  other, to \<open>2\<^sup>5\<^sup>3 + 6\<close>, while the nine cells of the grid, added through the eight
  accumulators of the pairwise sum, give \<open>2\<^sup>5\<^sup>3 + 4\<close>.
\<close>

theorem affected_population_exceeds_total:
  "nonneg_grid big_grid \<and> f64_grid big_grid \<and>
   find_affected_population big_grid (50, 150) 100 = 2 ^ 53 + 6 \<and>
   np_sum big_grid = 2 ^ 53 + 4 \<and>
   \<not> find_affected_population big_grid (50, 150) 100 \<le> np_sum big_grid"
  by code_simp

text \<open>
  Claim C7, amended. On a grid without negative entries the affected population is
  non-negative for every centre and every \<open>max_distance\<close>. It is \<^verbatim>\<open>np.sum\<close> of a block of
  cells of the grid, whose exact sum lies between 0 and the exact sum of the whole grid;
  the rounded sums need not be in that order.
\<close>

theorem affected_population_nonneg:
  assumes "nonneg_grid m"
  shows "0 \<le> find_affected_population m c d
       \<and> find_affected_population m c d = np_sum_view (snd (shape m)) (affected_cells m c d)
       \<and> 0 \<le> sum_list (concat (affected_cells m c d))
       \<and> sum_list (concat (affected_cells m c d)) \<le> sum_list (concat m)"
proof -
  have "\<forall>row \<in> set (affected_cells m c d). \<forall>v \<in> set row. 0 \<le> v"
    using assms unfolding affected_cells_def nonneg_grid_def
    by (blast dest: slice2_entries)
  then have "0 \<le> np_sum_view (snd (shape m)) (affected_cells m c d)"
    by (rule np_sum_view_nonneg)
  moreover have "0 \<le> sum_list (concat (affected_cells m c d))
       \<and> sum_list (concat (affected_cells m c d)) \<le> sum_list (concat m)"
    unfolding affected_cells_def by (rule slice2_exact_sum_bounds [OF assms])
  ultimately show ?thesis by (simp add: find_affected_population_cells)
qed

theorem affected_population_nonneg_witness:
  "nonneg_grid small_grid \<and>
   (0 \<le> find_affected_population small_grid (150, 50) 120
    \<and> find_affected_population small_grid (150, 50) 120
        = np_sum_view (snd (shape small_grid)) (affected_cells small_grid (150, 50) 120)
    \<and> 0 \<le> sum_list (concat (affected_cells small_grid (150, 50) 120))
    \<and> sum_list (concat (affected_cells small_grid (150, 50) 120)) \<le> sum_list (concat small_grid))"
proof -
  have h: "nonneg_grid small_grid" by (simp add: nonneg_grid_def)
  show ?thesis
    using h affected_population_nonneg [OF h, of "(150, 50)" 120] by (rule conjI)
qed

text \<open>
  Claim C10 says that for a centre inside the grid and \<open>0 \<le> max_distance < 100\<close> the result
  is the single cell \<open>(int (x / 100), int (y / 100))\<close>. For the centre
  \<open>(100 - 2\<^sup>-\<^sup>4\<^sup>6, 0)\<close>, the \<^verbatim>\<open>float64\<close> next below 100, on a column of two cells the centre
  cell is \<open>1 - 2\<^sup>-\<^sup>5\<^sup>3\<close>, in the grid, and \<open>int\<close> of it is 0; but \<open>centre_cell + 1\<close> rounds
  to 2, the end index is 2 and the code adds cell 1 to cell 0.
\<close>

theorem single_cell_counterexample:
  "is_matrix two_cells \<and> f64_grid two_cells \<and> is_f64 (100 - 1 / 2 ^ 46) \<and>
   centre_in_grid two_cells (100 - 1 / 2 ^ 46, 0) \<and>
   two_cells ! nat (py_int (centre_cell (100 - 1 / 2 ^ 46))) ! nat (py_int (centre_cell 0)) = 1 \<and>
   find_affected_population two_cells (100 - 1 / 2 ^ 46, 0) 0 = 3"
  by code_simp

text \<open>
  Claim C10, amended. For a rectangular grid of \<^verbatim>\<open>float64\<close> values, a centre whose
  coordinates divided by 100 (in \<^verbatim>\<open>float64\<close>) lie in \<open>[0, dimension)\<close> and a \<^verbatim>\<open>float64\<close>
  \<open>max_distance\<close> with \<open>0 \<le> max_distance < 100\<close>: if on both axes \<open>int (c + 1) = int (c) + 1\<close>
  for the centre cell \<open>c\<close>, that is, the sum \<open>c + 1\<close> does not round up to the next integer,
  the result is exactly the value of the cell \<open>(int (x / 100), int (y / 100))\<close>, the first
  axis of the grid indexed by x.
\<close>

theorem affected_population_single_cell:
  assumes "is_matrix m" and "f64_grid m" and "centre_in_grid m (x, y)"
    and "is_f64 d" and "0 \<le> d" and "d < 100"
    and "py_int (round_f64 (centre_cell x + 1)) = py_int (centre_cell x) + 1"
    and "py_int (round_f64 (centre_cell y + 1)) = py_int (centre_cell y) + 1"
  shows "find_affected_population m (x, y) d
           = m ! nat (py_int (centre_cell x)) ! nat (py_int (centre_cell y))"
proof -
  let ?k = "nat (py_int (centre_cell x))" and ?l = "nat (py_int (centre_cell y))"
  have r: "cell_range d = 0" by (rule cell_range_zero [OF assms(4-6)])
  have cx: "0 \<le> centre_cell x" "centre_cell x < real (fst (shape m))"
    and cy: "0 \<le> centre_cell y" "centre_cell y < real (snd (shape m))"
    using assms(3) by (simp_all add: centre_in_grid_def)
  have ux: "upper_index (centre_cell x) 0 = py_int (centre_cell x) + 1"
    and uy: "upper_index (centre_cell y) 0 = py_int (centre_cell y) + 1"
    by (simp_all only: upper_index_zero_range assms(7,8))
  have px: "0 \<le> py_int (centre_cell x)" and py: "0 \<le> py_int (centre_cell y)"
    using cx(1) cy(1) by (simp_all add: py_int_def)
  have ex: "0 \<le> upper_index (centre_cell x) (cell_range d)"
    and ey: "0 \<le> upper_index (centre_cell y) (cell_range d)"
    using px py by (simp_all only: r ux uy)
  have cells: "affected_cells m (x, y) d = [[m ! ?k ! ?l]]"
    unfolding affected_cells_def fst_conv snd_conv slice2_window [OF assms(1) ex ey]
    unfolding r ux uy lower_index_zero_range
      single_index_window [OF cx] single_index_window [OF cy]
    by (simp add: sub_matrix_def)
  have "?k < length m"
    using py_int_index(2) [OF cx] by (simp add: shape_def)
  then have row: "m ! ?k \<in> set m" by simp
  then have "length (m ! ?k) = snd (shape m)" using assms(1) by (simp add: is_matrix_def)
  moreover have "?l < snd (shape m)"
    by (rule py_int_index(2) [OF cy])
  ultimately have "m ! ?k ! ?l \<in> set (m ! ?k)" by simp
  with row assms(2) have "is_f64 (m ! ?k ! ?l)" by (auto simp: f64_grid_def)
  then show ?thesis
    by (simp only: find_affected_population_cells cells np_sum_view_single)
qed

theorem affected_population_single_cell_witness:
  "is_matrix small_grid \<and> f64_grid small_grid \<and> centre_in_grid small_grid (150, 50) \<and>
   is_f64 50 \<and> (0::real) \<le> 50 \<and> (50::real) < 100 \<and>
   py_int (round_f64 (centre_cell 150 + 1)) = py_int (centre_cell 150) + 1 \<and>
   py_int (round_f64 (centre_cell 50 + 1)) = py_int (centre_cell 50) + 1 \<and>
   find_affected_population small_grid (150, 50) 50
     = small_grid ! nat (py_int (centre_cell 150)) ! nat (py_int (centre_cell 50))"
proof -
  have h1: "is_matrix small_grid" by (simp add: is_matrix_def shape_def)
  have h2: "f64_grid small_grid" by code_simp
  have h3: "centre_in_grid small_grid (150, 50)" by code_simp
  have h4: "is_f64 50" by code_simp
  have h5: "(0::real) \<le> 50" and h6: "(50::real) < 100" by simp_all
  have h7: "py_int (round_f64 (centre_cell 150 + 1)) = py_int (centre_cell 150) + 1" by code_simp
  have h8: "py_int (round_f64 (centre_cell 50 + 1)) = py_int (centre_cell 50) + 1" by code_simp
  show ?thesis
    using h1 h2 h3 h4 h5 h6 h7 h8 affected_population_single_cell [OF h1 h2 h3 h4 h5 h6 h7 h8]
    by (intro conjI)
qed

subsection \<open>The percentage\<close>

text \<open>
  Claim C9. The script computes the percentage as \<open>affected / total * 100\<close> with no guard,
  whatever the total is. When the sum of the whole grid is zero the division is still
  performed: no error is raised, and the result is NaN when the affected population is
  zero too, and an infinity otherwise.
\<close>

theorem percentage_division_unguarded:
  assumes "case_locations \<noteq> []"
  shows "\<exists>c d. find_outbreak_centre case_locations = Inr c
           \<and> amax (concat (calculate_distance_matrix case_locations)) = Inr d
           \<and> outbreak_analyser case_locations population_matrix =
               Inr \<lparr>outbreak_centre = c,
                    total_population = np_sum population_matrix,
                    affected_population = find_affected_population population_matrix c d,
                    percentage_affected =
                      np_times (np_true_divide (find_affected_population population_matrix c d)
                                               (np_sum population_matrix)) 100\<rparr>
           \<and> (np_sum population_matrix = 0 \<longrightarrow>
                np_times (np_true_divide (find_affected_population population_matrix c d)
                                         (np_sum population_matrix)) 100
                  = (if find_affected_population population_matrix c d = 0 then NaN
                     else if 0 < find_affected_population population_matrix c d then PosInf
                     else NegInf))"
proof -
  from outbreak_centre_first_max [OF assms] obtain c
    where c: "find_outbreak_centre case_locations = Inr c" by blast
  from amax_nonempty [OF distance_matrix_concat_nonempty [OF assms]] obtain d
    where d: "amax (concat (calculate_distance_matrix case_locations)) = Inr d" by blast
  have run: "outbreak_analyser case_locations population_matrix =
               Inr \<lparr>outbreak_centre = c,
                    total_population = np_sum population_matrix,
                    affected_population = find_affected_population population_matrix c d,
                    percentage_affected =
                      np_times (np_true_divide (find_affected_population population_matrix c d)
                                               (np_sum population_matrix)) 100\<rparr>"
    by (simp add: outbreak_analyser_def c d Let_def)
  have zero: "np_sum population_matrix = 0 \<longrightarrow>
                np_times (np_true_divide (find_affected_population population_matrix c d)
                                         (np_sum population_matrix)) 100
                  = (if find_affected_population population_matrix c d = 0 then NaN
                     else if 0 < find_affected_population population_matrix c d then PosInf
                     else NegInf)"
    by (simp add: percentage_zero_total)
  from c d run zero show ?thesis by blast
qed

theorem percentage_division_unguarded_witness:
  "three_cases \<noteq> [] \<and> np_sum empty_land = 0 \<and>
   (\<exists>c d. find_outbreak_centre three_cases = Inr c
           \<and> amax (concat (calculate_distance_matrix three_cases)) = Inr d
           \<and> outbreak_analyser three_cases empty_land =
               Inr \<lparr>outbreak_centre = c,
                    total_population = np_sum empty_land,
                    affected_population = find_affected_population empty_land c d,
                    percentage_affected =
                      np_times (np_true_divide (find_affected_population empty_land c d)
                                               (np_sum empty_land)) 100\<rparr>
           \<and> (np_sum empty_land = 0 \<longrightarrow>
                np_times (np_true_divide (find_affected_population empty_land c d)
                                         (np_sum empty_land)) 100
                  = (if find_affected_population empty_land c d = 0 then NaN
                     else if 0 < find_affected_population empty_land c d then PosInf
                     else NegInf)))"
proof -
  have h1: "three_cases \<noteq> []" by simp
  have h2: "np_sum empty_land = 0" by code_simp
  show ?thesis
    using h1 h2 percentage_division_unguarded [OF h1, of empty_land] by (intro conjI)
qed

end
